theory Spec2Isabelle
  imports Complex_Main "HOL-Library.Char_ord" "HOL-Library.List_Lexorder" "HOL-Library.Sublist"
begin

section \<open>JavaScript numbers\<close>

text \<open>
  A JavaScript \<^verbatim>\<open>number\<close> is modelled as a real number or one of the three special
  values of IEEE arithmetic. Arithmetic on finite values is exact: rounding and overflow
  are left out, and \<^verbatim>\<open>+0\<close> and \<^verbatim>\<open>-0\<close> are one value (every zero divisor below is a
  product of square roots, so it is \<^verbatim>\<open>+0\<close>). What the special values do is written out:
  \<^verbatim>\<open>0/0\<close>, \<^verbatim>\<open>Infinity - Infinity\<close> and \<^verbatim>\<open>0 * Infinity\<close> are \<^verbatim>\<open>NaN\<close>, and every comparison
  with \<^verbatim>\<open>NaN\<close> is false.
\<close>

datatype jsnum = NaN | PosInf | NegInf | Num real

fun inf_of_sign :: "real \<Rightarrow> jsnum" where
  "inf_of_sign x = (if x = 0 then NaN else if 0 < x then PosInf else NegInf)"

fun js_neg :: "jsnum \<Rightarrow> jsnum" where
  "js_neg NaN = NaN"
| "js_neg PosInf = NegInf"
| "js_neg NegInf = PosInf"
| "js_neg (Num x) = Num (- x)"

fun js_add :: "jsnum \<Rightarrow> jsnum \<Rightarrow> jsnum" where
  "js_add NaN b = NaN"
| "js_add a NaN = NaN"
| "js_add PosInf NegInf = NaN"
| "js_add NegInf PosInf = NaN"
| "js_add PosInf b = PosInf"
| "js_add a PosInf = PosInf"
| "js_add NegInf b = NegInf"
| "js_add a NegInf = NegInf"
| "js_add (Num x) (Num y) = Num (x + y)"

definition js_sub :: "jsnum \<Rightarrow> jsnum \<Rightarrow> jsnum" where
  "js_sub a b = js_add a (js_neg b)"

fun js_mul :: "jsnum \<Rightarrow> jsnum \<Rightarrow> jsnum" where
  "js_mul NaN b = NaN"
| "js_mul a NaN = NaN"
| "js_mul PosInf PosInf = PosInf"
| "js_mul PosInf NegInf = NegInf"
| "js_mul NegInf PosInf = NegInf"
| "js_mul NegInf NegInf = PosInf"
| "js_mul PosInf (Num y) = inf_of_sign y"
| "js_mul NegInf (Num y) = inf_of_sign (- y)"
| "js_mul (Num x) PosInf = inf_of_sign x"
| "js_mul (Num x) NegInf = inf_of_sign (- x)"
| "js_mul (Num x) (Num y) = Num (x * y)"

fun js_div :: "jsnum \<Rightarrow> jsnum \<Rightarrow> jsnum" where
  "js_div NaN b = NaN"
| "js_div a NaN = NaN"
| "js_div PosInf (Num y) = (if y < 0 then NegInf else PosInf)"
| "js_div NegInf (Num y) = (if y < 0 then PosInf else NegInf)"
| "js_div PosInf b = NaN"
| "js_div NegInf b = NaN"
| "js_div (Num x) PosInf = Num 0"
| "js_div (Num x) NegInf = Num 0"
| "js_div (Num x) (Num y) = (if y = 0 then inf_of_sign x else Num (x / y))"

fun js_sqrt :: "jsnum \<Rightarrow> jsnum" where
  "js_sqrt NaN = NaN"
| "js_sqrt PosInf = PosInf"
| "js_sqrt NegInf = NaN"
| "js_sqrt (Num x) = (if x < 0 then NaN else Num (sqrt x))"

text \<open>\<^verbatim>\<open>a > b\<close> and \<^verbatim>\<open>a >= b\<close>.\<close>

fun js_gt :: "jsnum \<Rightarrow> jsnum \<Rightarrow> bool" where
  "js_gt NaN b = False"
| "js_gt a NaN = False"
| "js_gt PosInf PosInf = False"
| "js_gt PosInf b = True"
| "js_gt a PosInf = False"
| "js_gt NegInf b = False"
| "js_gt a NegInf = True"
| "js_gt (Num x) (Num y) = (y < x)"

fun js_ge :: "jsnum \<Rightarrow> jsnum \<Rightarrow> bool" where
  "js_ge NaN b = False"
| "js_ge a NaN = False"
| "js_ge a b = (a = b \<or> js_gt a b)"

text \<open>\<^verbatim>\<open>Math.max\<close> of two arguments, and of a list (\<^verbatim>\<open>-Infinity\<close> for no argument).\<close>

fun js_max2 :: "jsnum \<Rightarrow> jsnum \<Rightarrow> jsnum" where
  "js_max2 NaN b = NaN"
| "js_max2 a NaN = NaN"
| "js_max2 a b = (if js_gt b a then b else a)"

definition js_max :: "jsnum list \<Rightarrow> jsnum" where
  "js_max xs = foldl js_max2 NegInf xs"

fun js_min2 :: "jsnum \<Rightarrow> jsnum \<Rightarrow> jsnum" where
  "js_min2 NaN b = NaN"
| "js_min2 a NaN = NaN"
| "js_min2 a b = (if js_gt a b then b else a)"

text \<open>\<^verbatim>\<open>xs.slice(0, e)\<close> for an integer \<open>e\<close>: a negative end counts from the end of the array.\<close>

definition js_slice0 :: "int \<Rightarrow> 'a list \<Rightarrow> 'a list" where
  "js_slice0 e xs = (if e < 0 then take (nat (int (length xs) + e)) xs else take (nat e) xs)"

section \<open>Data model\<close>

text \<open>
  The records of \<^verbatim>\<open>../types\<close> as the services use them. Dates are milliseconds since the
  epoch; the \<^verbatim>\<open>metadata\<close> field of a chunk, which no service sets or reads, is left out.
\<close>

type_synonym vector = "jsnum list"

datatype DocumentType = Pdf | Docx | Txt | Audio | Image

datatype js_error = Error (message: string) | NonError

record DocumentChunk =
  chunk_id :: string
  documentId :: string
  content :: string
  startIndex :: nat
  endIndex :: nat
  page :: "nat option"
  embedding :: "vector option"

record Document =
  doc_id :: string
  doc_name :: string
  doc_content :: string
  doc_type :: DocumentType
  doc_size :: nat
  uploadedAt :: nat
  processedAt :: "nat option"
  doc_chunks :: "DocumentChunk list option"

record StoredChunk =
  sc_id :: string
  sc_documentId :: string
  sc_content :: string
  sc_startIndex :: nat
  sc_endIndex :: nat
  sc_page :: "nat option"
  sc_embedding :: "vector option"

record StoredDocument =
  sd_id :: string
  sd_name :: string
  sd_type :: DocumentType
  sd_size :: nat
  sd_uploadedAt :: nat
  sd_processedAt :: "nat option"
  sd_content :: string
  sd_chunks :: "StoredChunk list"

record DocumentSource =
  src_documentId :: string
  src_documentName :: string
  src_chunkId :: string
  src_content :: string
  src_page :: "nat option"
  relevanceScore :: jsnum

datatype Role = User | Assistant

record ChatMessage =
  msg_id :: string
  msg_content :: string
  msg_role :: Role
  msg_timestamp :: nat
  msg_sources :: "DocumentSource list option"

record SearchResult =
  result_chunks :: "DocumentChunk list"
  totalResults :: nat
  maxRelevanceScore :: jsnum
  averageRelevanceScore :: jsnum

section \<open>Vector math\<close>

text \<open>
  The loop of \<^verbatim>\<open>cosineSimilarity\<close> (storage) and \<^verbatim>\<open>calculateSimilarity\<close> (RAG service),
  which are the same code: it runs over the indices of the first vector, and is entered
  only when both vectors have the same length. The accumulator is
  \<open>(dotProduct, normA, normB)\<close>.
\<close>

fun similarity_loop :: "vector \<Rightarrow> vector \<Rightarrow> jsnum \<times> jsnum \<times> jsnum \<Rightarrow> jsnum \<times> jsnum \<times> jsnum" where
  "similarity_loop (x # xs) (y # ys) (dotProduct, normA, normB) =
     similarity_loop xs ys
       (js_add dotProduct (js_mul x y), js_add normA (js_mul x x), js_add normB (js_mul y y))"
| "similarity_loop xs ys acc = acc"

definition cosineSimilarity :: "vector \<Rightarrow> vector \<Rightarrow> jsnum" where
  "cosineSimilarity a b =
     (if length a \<noteq> length b then Num 0
      else (case similarity_loop a b (Num 0, Num 0, Num 0) of
              (dotProduct, normA, normB) \<Rightarrow>
                js_div dotProduct (js_mul (js_sqrt normA) (js_sqrt normB))))"

definition calculateSimilarity :: "vector \<Rightarrow> vector \<Rightarrow> jsnum" where
  "calculateSimilarity vec1 vec2 =
     (if length vec1 \<noteq> length vec2 then Num 0
      else (case similarity_loop vec1 vec2 (Num 0, Num 0, Num 0) of
              (dotProduct, norm1, norm2) \<Rightarrow>
                js_div dotProduct (js_mul (js_sqrt norm1) (js_sqrt norm2))))"

section \<open>Storage service\<close>

text \<open>
  An IndexedDB object store with a key path is a list of records kept in key order
  (\<^verbatim>\<open>getAll\<close> returns them so); \<^verbatim>\<open>put\<close> replaces the record with the same key. The
  service's \<^verbatim>\<open>db\<close> field is \<open>None\<close> until \<^verbatim>\<open>initialize\<close> has run, and an operation
  fails only then (\<^verbatim>\<open>ensureDB\<close>): a failure inside IndexedDB is not modelled. The stores
  \<^verbatim>\<open>settings\<close> and \<^verbatim>\<open>models\<close> play no part here.
\<close>

definition os_put :: "('a \<Rightarrow> string) \<Rightarrow> 'a \<Rightarrow> 'a list \<Rightarrow> 'a list" where
  "os_put key x xs = insort_key key x (filter (\<lambda>y. key y \<noteq> key x) xs)"

definition os_delete :: "('a \<Rightarrow> string) \<Rightarrow> string \<Rightarrow> 'a list \<Rightarrow> 'a list" where
  "os_delete key k xs = filter (\<lambda>y. key y \<noteq> k) xs"


record PrivacyThinkDB =
  db_documents :: "StoredDocument list"
  db_chunks :: "StoredChunk list"
  db_chat_history :: "ChatMessage list"

type_synonym storage = "PrivacyThinkDB option"

definition ensureDB :: "storage \<Rightarrow> js_error + PrivacyThinkDB" where
  "ensureDB st =
     (case st of
        None \<Rightarrow> Inl (Error ''Storage not initialized. Call initialize() first.'')
      | Some db \<Rightarrow> Inr db)"

definition toStoredChunk :: "DocumentChunk \<Rightarrow> StoredChunk" where
  "toStoredChunk chunk =
     \<lparr> sc_id = chunk_id chunk, sc_documentId = documentId chunk, sc_content = content chunk,
       sc_startIndex = startIndex chunk, sc_endIndex = endIndex chunk, sc_page = page chunk,
       sc_embedding = Some (case embedding chunk of None \<Rightarrow> [] | Some e \<Rightarrow> e) \<rparr>"

definition toDocumentChunk :: "StoredChunk \<Rightarrow> DocumentChunk" where
  "toDocumentChunk chunk =
     \<lparr> chunk_id = sc_id chunk, documentId = sc_documentId chunk, content = sc_content chunk,
       startIndex = sc_startIndex chunk, endIndex = sc_endIndex chunk, page = sc_page chunk,
       embedding = sc_embedding chunk \<rparr>"

definition saveDocument :: "storage \<Rightarrow> Document \<Rightarrow> js_error + storage" where
  "saveDocument st document =
     (case ensureDB st of
        Inl e \<Rightarrow> Inl e
      | Inr db \<Rightarrow>
          let storedDoc =
                \<lparr> sd_id = doc_id document, sd_name = doc_name document,
                  sd_type = doc_type document, sd_size = doc_size document,
                  sd_uploadedAt = uploadedAt document, sd_processedAt = processedAt document,
                  sd_content = doc_content document,
                  sd_chunks = (case doc_chunks document of
                                 None \<Rightarrow> []
                               | Some cs \<Rightarrow> map toStoredChunk cs) \<rparr>
          in Inr (Some (db \<lparr> db_documents := os_put sd_id storedDoc (db_documents db),
                             db_chunks := foldl (\<lambda>store chunk. os_put sc_id chunk store)
                                            (db_chunks db) (sd_chunks storedDoc) \<rparr>)))"


text \<open>
  \<^verbatim>\<open>deleteDocument\<close>: the document's record is deleted, the chunks found under the
  \<^verbatim>\<open>by-document\<close> index are read once, and each is deleted by its own key.
\<close>

definition deleteDocument :: "storage \<Rightarrow> string \<Rightarrow> js_error + storage" where
  "deleteDocument st k =
     (case ensureDB st of
        Inl e \<Rightarrow> Inl e
      | Inr db \<Rightarrow>
          let found = filter (\<lambda>chunk. sc_documentId chunk = k) (db_chunks db)
          in Inr (Some (db \<lparr> db_documents := os_delete sd_id k (db_documents db),
                             db_chunks := foldl (\<lambda>store chunk. os_delete sc_id (sc_id chunk) store)
                                            (db_chunks db) found \<rparr>)))"

text \<open>
  \<^verbatim>\<open>sort((a, b) => b.similarity - a.similarity)\<close>: the sort is stable, and \<open>b\<close> goes
  before \<open>a\<close> exactly when the comparator's value is greater than zero (a \<^verbatim>\<open>NaN\<close> value
  counts as zero).
\<close>

fun insert_by_similarity :: "'a \<times> jsnum \<Rightarrow> ('a \<times> jsnum) list \<Rightarrow> ('a \<times> jsnum) list" where
  "insert_by_similarity a [] = [a]"
| "insert_by_similarity a (b # bs) =
     (if js_gt (js_sub (snd b) (snd a)) (Num 0) then b # insert_by_similarity a bs
      else a # b # bs)"

definition sort_by_similarity :: "('a \<times> jsnum) list \<Rightarrow> ('a \<times> jsnum) list" where
  "sort_by_similarity rs = foldr insert_by_similarity rs []"

definition has_embedding :: "StoredChunk \<Rightarrow> bool" where
  "has_embedding chunk = (case sc_embedding chunk of None \<Rightarrow> False | Some e \<Rightarrow> length e > 0)"

definition stored_embedding :: "StoredChunk \<Rightarrow> vector" where
  "stored_embedding chunk = (case sc_embedding chunk of None \<Rightarrow> [] | Some e \<Rightarrow> e)"

definition searchChunks :: "storage \<Rightarrow> vector \<Rightarrow> int \<Rightarrow> jsnum \<Rightarrow> js_error + DocumentChunk list" where
  "searchChunks st queryEmbedding topK threshold =
     (case ensureDB st of
        Inl e \<Rightarrow> Inl e
      | Inr db \<Rightarrow>
          let allChunks = db_chunks db;
              similarities =
                js_slice0 topK
                  (sort_by_similarity
                    (filter (\<lambda>result. js_ge (snd result) threshold)
                      (map (\<lambda>chunk. (toDocumentChunk chunk,
                                      cosineSimilarity queryEmbedding (stored_embedding chunk)))
                        (filter has_embedding allChunks))))
          in Inr (map fst similarities))"


section \<open>RAG service: search\<close>

record SearchOptions =
  opt_topK :: "int option"
  opt_threshold :: "jsnum option"
  opt_documentIds :: "string list option"

definition topK_of :: "SearchOptions \<Rightarrow> int" where
  "topK_of options = (case opt_topK options of None \<Rightarrow> 5 | Some k \<Rightarrow> k)"

definition threshold_of :: "SearchOptions \<Rightarrow> jsnum" where
  "threshold_of options = (case opt_threshold options of None \<Rightarrow> Num (7 / 10) | Some t \<Rightarrow> t)"

definition searchDocuments ::
  "(string \<Rightarrow> js_error + vector) \<Rightarrow> storage \<Rightarrow> string \<Rightarrow> SearchOptions \<Rightarrow> js_error + SearchResult" where
  "searchDocuments generateEmbedding st query options =
     (let topK = topK_of options; threshold = threshold_of options
      in case generateEmbedding query of
           Inl e \<Rightarrow> Inl e
         | Inr queryEmbedding \<Rightarrow>
             (case searchChunks st queryEmbedding (topK * 2) (js_mul threshold (Num (8 / 10))) of
                Inl e \<Rightarrow> Inl e
              | Inr found \<Rightarrow>
                  let filtered =
                        (case opt_documentIds options of
                           None \<Rightarrow> found
                         | Some documentIds \<Rightarrow>
                             if length documentIds > 0
                             then filter (\<lambda>chunk. documentId chunk \<in> set documentIds) found
                             else found);
                      chunks = js_slice0 topK filtered;
                      relevanceScores =
                        map (\<lambda>chunk. case embedding chunk of
                                        None \<Rightarrow> Num 0
                                      | Some e \<Rightarrow> calculateSimilarity queryEmbedding e) chunks;
                      maxScore = js_max (relevanceScores @ [Num 0]);
                      avgScore =
                        (if length relevanceScores > 0
                         then js_div (foldl js_add (Num 0) relevanceScores)
                                (Num (real (length relevanceScores)))
                         else Num 0)
                  in Inr \<lparr> result_chunks = chunks, totalResults = length chunks,
                           maxRelevanceScore = maxScore, averageRelevanceScore = avgScore \<rparr>))"

section \<open>Strings\<close>

text \<open>
  A text is a list of code units; the model has the code units below 256. The white space
  of \<^verbatim>\<open>trim\<close> and of the regular expression class \<^verbatim>\<open>\s\<close> is the same set: tab, line
  feed, vertical tab, form feed, carriage return, space and no-break space.
\<close>

abbreviation newline :: char where
  "newline \<equiv> CHR 0x0A"

definition is_ws :: "char \<Rightarrow> bool" where
  "is_ws c = (c = CHR 0x09 \<or> c = CHR 0x0A \<or> c = CHR 0x0B \<or> c = CHR 0x0C \<or> c = CHR 0x0D
              \<or> c = CHR 0x20 \<or> c = CHR 0xA0)"

definition trim :: "string \<Rightarrow> string" where
  "trim s = rev (dropWhile is_ws (rev (dropWhile is_ws s)))"

text \<open>\<^verbatim>\<open>s.slice(b, e)\<close> for \<open>0 \<le> b\<close> and \<open>0 \<le> e\<close>.\<close>

definition js_slice :: "string \<Rightarrow> nat \<Rightarrow> nat \<Rightarrow> string" where
  "js_slice s b e = take (e - b) (drop b s)"

text \<open>
  The regular expression \<^verbatim>\<open>/\n\s*\n/\<close> at the start of a text: a line feed, then the
  longest run of white space that a line feed still follows. The run of white space after
  the first line feed is cut after its last line feed; the match fails when that run has
  none. \<open>separator_at\<close> is the length of the match.
\<close>

definition through_last_newline :: "string \<Rightarrow> string" where
  "through_last_newline ws = rev (dropWhile (\<lambda>c. c \<noteq> newline) (rev ws))"

fun separator_at :: "string \<Rightarrow> nat option" where
  "separator_at [] = None"
| "separator_at (c # cs) =
     (if c = newline
      then (let m = through_last_newline (takeWhile is_ws cs)
            in if m = [] then None else Some (Suc (length m)))
      else None)"

lemma separator_at_positive: "separator_at s = Some n \<Longrightarrow> 0 < n"
  by (cases s) (auto simp: Let_def split: if_splits)

text \<open>
  \<^verbatim>\<open>content.split(/\n\s*\n/)\<close>: the text is scanned from the left; where the expression
  matches, the piece read so far is closed and the scan goes on after the match; the
  piece open at the end of the text is the last one. (The expression matches no empty
  text, so the empty text splits into one empty piece.)
\<close>

function split_loop :: "string \<Rightarrow> string \<Rightarrow> string list" where
  "split_loop piece [] = [piece]"
| "split_loop piece (c # cs) =
     (case separator_at (c # cs) of
        None \<Rightarrow> split_loop (piece @ [c]) cs
      | Some n \<Rightarrow> piece # split_loop [] (drop n (c # cs)))"
  by pat_completeness auto
termination
proof (relation "measure (\<lambda>(piece, rest). length rest)")
  fix piece :: string and c cs n
  assume "separator_at (c # cs) = Some n"
  then have "0 < n" by (rule separator_at_positive)
  then show "(([], drop n (c # cs)), (piece, c # cs)) \<in> measure (\<lambda>(piece, rest). length rest)"
    by simp
qed simp_all

definition split_paragraphs :: "string \<Rightarrow> string list" where
  "split_paragraphs text = split_loop [] text"

text \<open>The regular expression \<^verbatim>\<open>/--- Page (\d+) ---/\<close> at the start of a text: the text
  it matches there.\<close>

definition is_digit :: "char \<Rightarrow> bool" where
  "is_digit c = (c \<in> set ''0123456789'')"

definition marker_at :: "string \<Rightarrow> string option" where
  "marker_at s =
     (if prefix ''--- Page '' s
      then (let digits = takeWhile is_digit (drop 9 s)
            in if digits \<noteq> [] \<and> prefix '' ---'' (dropWhile is_digit (drop 9 s))
               then Some (''--- Page '' @ digits @ '' ---'')
               else None)
      else None)"

lemma marker_at_nonempty: "marker_at s = Some m \<Longrightarrow> 0 < length m"
  by (auto simp: marker_at_def Let_def split: if_splits)

text \<open>\<^verbatim>\<open>content.match(/--- Page (\d+) ---/g)\<close>: the matches from the left, each search
  starting where the match before it ended.\<close>

function match_markers :: "string \<Rightarrow> string list" where
  "match_markers [] = []"
| "match_markers (c # cs) =
     (case marker_at (c # cs) of
        None \<Rightarrow> match_markers cs
      | Some m \<Rightarrow> m # match_markers (drop (length m) (c # cs)))"
  by pat_completeness auto
termination
proof (relation "measure length")
  fix c cs m
  assume "marker_at (c # cs) = Some m"
  then have "0 < length m" by (rule marker_at_nonempty)
  then show "(drop (length m) (c # cs), c # cs) \<in> measure length"
    by simp
qed simp_all

text \<open>\<^verbatim>\<open>content.indexOf(marker)\<close>: the first position where the marker stands, or -1.\<close>

fun index_from :: "string \<Rightarrow> string \<Rightarrow> nat \<Rightarrow> int" where
  "index_from [] m i = (if m = [] then int i else - 1)"
| "index_from (c # cs) m i = (if prefix m (c # cs) then int i else index_from cs m (Suc i))"

definition indexOf :: "string \<Rightarrow> string \<Rightarrow> int" where
  "indexOf s m = index_from s m 0"

text \<open>\<^verbatim>\<open>parseInt(digits, 10)\<close> on a run of decimal digits (exact: a page number is far
  below the integers a \<^verbatim>\<open>number\<close> cannot hold).\<close>

definition digit_value :: "char \<Rightarrow> nat" where
  "digit_value c = of_char c - 48"

definition parseInt :: "string \<Rightarrow> nat" where
  "parseInt digits = foldl (\<lambda>n c. 10 * n + digit_value c) 0 digits"

section \<open>Document processor: chunking\<close>

definition CHUNK_SIZE :: nat where
  "CHUNK_SIZE = 1000"

definition OVERLAP :: nat where
  "OVERLAP = 200"

text \<open>
  \<^verbatim>\<open>generateId\<close> reads the clock and a random number; here the identifiers come from a
  function \<open>ids\<close>, and the chunk pushed when the list holds \<open>k\<close> chunks gets \<open>ids k\<close>.
\<close>

definition new_chunk :: "(nat \<Rightarrow> string) \<Rightarrow> string \<Rightarrow> DocumentChunk list \<Rightarrow> string \<Rightarrow> nat \<Rightarrow> nat \<Rightarrow> DocumentChunk" where
  "new_chunk ids docId chunks text b e =
     \<lparr> chunk_id = ids (length chunks), documentId = docId, content = text,
       startIndex = b, endIndex = e, page = None, embedding = None \<rparr>"

text \<open>The \<^verbatim>\<open>while\<close> loop over one long paragraph: \<open>window_push\<close> is one run of its
  body up to the step of \<^verbatim>\<open>paragraphStart\<close>.\<close>

definition window_push ::
  "(nat \<Rightarrow> string) \<Rightarrow> string \<Rightarrow> string \<Rightarrow> nat \<Rightarrow> nat \<Rightarrow> DocumentChunk list \<Rightarrow> DocumentChunk list" where
  "window_push ids docId paragraph startIdx paragraphStart chunks =
     (let endIdx = min (paragraphStart + CHUNK_SIZE) (length paragraph);
          chunkContent = trim (js_slice paragraph paragraphStart endIdx)
      in if chunkContent \<noteq> []
         then chunks @ [new_chunk ids docId chunks chunkContent
                          (startIdx + paragraphStart) (startIdx + endIdx)]
         else chunks)"

function window_loop ::
  "(nat \<Rightarrow> string) \<Rightarrow> string \<Rightarrow> string \<Rightarrow> nat \<Rightarrow> nat \<Rightarrow> DocumentChunk list \<Rightarrow> DocumentChunk list" where
  "window_loop ids docId paragraph startIdx paragraphStart chunks =
     (if paragraphStart < length paragraph
      then window_loop ids docId paragraph startIdx (paragraphStart + (CHUNK_SIZE - OVERLAP))
             (window_push ids docId paragraph startIdx paragraphStart chunks)
      else chunks)"
  by pat_completeness auto
termination
  by (relation "measure (\<lambda>(ids, docId, paragraph, startIdx, paragraphStart, chunks).
                            length paragraph - paragraphStart)")
     (auto simp: CHUNK_SIZE_def OVERLAP_def)

declare window_loop.simps [simp del]

text \<open>The \<^verbatim>\<open>for\<close> loop over the paragraphs, with the running \<^verbatim>\<open>startIndex\<close>.\<close>

fun paragraph_loop ::
  "(nat \<Rightarrow> string) \<Rightarrow> string \<Rightarrow> string list \<Rightarrow> nat \<Rightarrow> DocumentChunk list \<Rightarrow> DocumentChunk list" where
  "paragraph_loop ids docId [] startIdx chunks = chunks"
| "paragraph_loop ids docId (paragraph # rest) startIdx chunks =
     (if length paragraph \<le> CHUNK_SIZE
      then paragraph_loop ids docId rest (startIdx + length paragraph)
             (chunks @ [new_chunk ids docId chunks (trim paragraph)
                          startIdx (startIdx + length paragraph)])
      else paragraph_loop ids docId rest (startIdx + length paragraph)
             (window_loop ids docId paragraph startIdx 0 chunks))"

definition paragraphs_of :: "string \<Rightarrow> string list" where
  "paragraphs_of text = filter (\<lambda>p. length (trim p) > 0) (split_paragraphs text)"

text \<open>\<^verbatim>\<open>addPageNumbers\<close>: the page starts are collected marker by marker, and each chunk
  takes the page of the last entry, counted from the end of the list, whose index is at
  most the chunk's \<^verbatim>\<open>startIndex\<close>; page 1 when there is none.\<close>

definition page_starts :: "string \<Rightarrow> (nat \<times> int) list" where
  "page_starts text =
     concat (map (\<lambda>marker. case marker_at marker of
                              None \<Rightarrow> []
                            | Some m \<Rightarrow> [(parseInt (takeWhile is_digit (drop 9 m)),
                                          indexOf text marker)])
                 (match_markers text))"

definition page_for :: "(nat \<times> int) list \<Rightarrow> nat \<Rightarrow> nat" where
  "page_for pageStarts chunkStart =
     (case find (\<lambda>entry. int chunkStart \<ge> snd entry) (rev pageStarts) of
        None \<Rightarrow> 1
      | Some entry \<Rightarrow> fst entry)"

definition addPageNumbers :: "DocumentChunk list \<Rightarrow> string \<Rightarrow> DocumentChunk list" where
  "addPageNumbers chunks text =
     map (\<lambda>chunk. chunk \<lparr> page := Some (page_for (page_starts text) (startIndex chunk)) \<rparr>) chunks"

definition chunkDocument :: "(nat \<Rightarrow> string) \<Rightarrow> string \<Rightarrow> Document \<Rightarrow> DocumentChunk list" where
  "chunkDocument ids text document =
     (let chunks = paragraph_loop ids (doc_id document) (paragraphs_of text) 0 []
      in if doc_type document = Pdf then addPageNumbers chunks text else chunks)"

section \<open>Progress events\<close>

text \<open>
  \<^verbatim>\<open>updateProgress\<close> calls the progress callback when one is registered (\<open>cb\<close>); the events
  of a run are the records the callback received, in order. One flag stands for the
  callbacks of both services, which \<^verbatim>\<open>setProgressCallback\<close> of the RAG service sets together.
\<close>

datatype ProcessingStage =
  Stage_uploading | Stage_extracting | Stage_chunking | Stage_embedding | Stage_indexing
  | Stage_complete | Stage_error | Stage_downloading

record ProcessingProgress =
  stage :: ProcessingStage
  progress :: jsnum
  progress_message :: string

definition updateProgress :: "bool \<Rightarrow> ProcessingStage \<Rightarrow> jsnum \<Rightarrow> string \<Rightarrow> ProcessingProgress list" where
  "updateProgress cb s p m =
     (if cb
      then [\<lparr> stage = s, progress = js_min2 (Num 100) (js_max2 (Num 0) p), progress_message = m \<rparr>]
      else [])"

text \<open>\<^verbatim>\<open>error instanceof Error ? error.message : 'Unknown error'\<close>.\<close>

definition failure_text :: "js_error \<Rightarrow> string" where
  "failure_text e = (case e of Error m \<Rightarrow> m | NonError \<Rightarrow> ''Unknown error'')"

text \<open>A natural number in decimal, as a template string prints it.\<close>

fun show_nat :: "nat \<Rightarrow> string" where
  "show_nat n =
     (if n < 10 then [char_of (48 + n)]
      else show_nat (n div 10) @ [char_of (48 + n mod 10)])"

declare show_nat.simps [simp del]

section \<open>Document processor: one file\<close>

record File =
  file_name :: string
  file_type :: string
  file_size :: nat

text \<open>\<^verbatim>\<open>toLowerCase\<close> on code units below 256.\<close>

definition lower_char :: "char \<Rightarrow> char" where
  "lower_char c =
     (let n = (of_char c :: nat)
      in if (65 \<le> n \<and> n \<le> 90) \<or> (192 \<le> n \<and> n \<le> 222 \<and> n \<noteq> 215) then char_of (n + 32) else c)"

definition toLowerCase :: "string \<Rightarrow> string" where
  "toLowerCase s = map lower_char s"

definition detectDocumentType :: "File \<Rightarrow> js_error + DocumentType" where
  "detectDocumentType file =
     (let mimeType = toLowerCase (file_type file); fileName = toLowerCase (file_name file)
      in if mimeType = ''application/pdf'' \<or> suffix ''.pdf'' fileName then Inr Pdf
         else if mimeType = ''application/vnd.openxmlformats-officedocument.wordprocessingml.document''
                 \<or> suffix ''.docx'' fileName then Inr Docx
         else if prefix ''text/'' mimeType \<or> suffix ''.txt'' fileName then Inr Txt
         else if prefix ''audio/'' mimeType then Inr Audio
         else if prefix ''image/'' mimeType then Inr Image
         else Inl (Error (''Unsupported file type: '' @ mimeType)))"

definition type_upper :: "DocumentType \<Rightarrow> string" where
  "type_upper t =
     (case t of Pdf \<Rightarrow> ''PDF'' | Docx \<Rightarrow> ''DOCX'' | Txt \<Rightarrow> ''TXT'' | Audio \<Rightarrow> ''AUDIO''
      | Image \<Rightarrow> ''IMAGE'')"

text \<open>The \<^verbatim>\<open>catch\<close> block of the document processor: an error event, and the error again.\<close>

definition processing_failed ::
  "bool \<Rightarrow> ProcessingProgress list \<Rightarrow> js_error \<Rightarrow> ProcessingProgress list \<times> (js_error + Document)" where
  "processing_failed cb events e =
     (events @ updateProgress cb Stage_error (Num 0) (''Processing failed: '' @ failure_text e),
      Inl e)"

text \<open>
  \<^verbatim>\<open>PrivacyDocumentProcessor.processDocument\<close>. The extraction of the text (PDF.js,
  Tesseract, Mammoth, speech recognition) is the parameter \<open>extractText\<close>: the events it
  emits and the text or the error it ends with. \<open>ids\<close> gives the results of
  \<^verbatim>\<open>generateId\<close> in the order of the calls: the first for the \<^verbatim>\<open>documentId\<close> of the
  chunks, then one per chunk, the last for the \<^verbatim>\<open>id\<close> of the returned document. The
  dates are all read as \<open>now\<close>.
\<close>

definition documentProcessor_processDocument ::
  "bool \<Rightarrow> (nat \<Rightarrow> string) \<Rightarrow> nat
     \<Rightarrow> (DocumentType \<Rightarrow> File \<Rightarrow> ProcessingProgress list \<times> (js_error + string))
     \<Rightarrow> File \<Rightarrow> ProcessingProgress list \<times> (js_error + Document)" where
  "documentProcessor_processDocument cb ids now extractText file =
     (let ev0 = updateProgress cb Stage_uploading (Num 0) ''Starting document processing...''
      in case detectDocumentType file of
           Inl e \<Rightarrow> processing_failed cb ev0 e
         | Inr documentType \<Rightarrow>
             let ev1 = ev0 @ updateProgress cb Stage_extracting (Num 10)
                               (''Processing '' @ type_upper documentType @ '' file...'')
             in if documentType = Image
                then processing_failed cb ev1 (Error (''Unsupported file type: '' @ file_type file))
                else (case extractText documentType file of
                        (evs, Inl e) \<Rightarrow> processing_failed cb (ev1 @ evs) e
                      | (evs, Inr text) \<Rightarrow>
                          let ev2 = ev1 @ evs @ updateProgress cb Stage_chunking (Num 60)
                                                  ''Breaking document into chunks...'';
                              chunks = chunkDocument (\<lambda>k. ids (Suc k)) text
                                         \<lparr> doc_id = ids 0, doc_name = file_name file,
                                           doc_content = text, doc_type = documentType,
                                           doc_size = file_size file, uploadedAt = now,
                                           processedAt = None, doc_chunks = None \<rparr>
                          in (ev2 @ updateProgress cb Stage_complete (Num 100)
                                      ''Document processing complete!'',
                              Inr \<lparr> doc_id = ids (Suc (length chunks)), doc_name = file_name file,
                                    doc_content = text, doc_type = documentType,
                                    doc_size = file_size file, uploadedAt = now,
                                    processedAt = Some now, doc_chunks = Some chunks \<rparr>)))"

section \<open>RAG service: the embedding workers\<close>

text \<open>
  The workers of \<^verbatim>\<open>processDocument\<close> are asynchronous functions on one thread: a worker
  runs until its \<^verbatim>\<open>await\<close>, and goes on when the promise it waits for has settled. The state
  between two such steps is: the document's chunks (the queue holds the same objects, so a
  chunk is named by its position), the queue, the chunk each suspended worker waits for,
  the counter and the events so far.
\<close>

definition CONCURRENCY_LIMIT :: nat where
  "CONCURRENCY_LIMIT = 5"

record pool_state =
  ps_chunks :: "DocumentChunk list"
  ps_queue :: "nat list"
  ps_waiting :: "nat list"
  ps_completed :: nat
  ps_events :: "ProcessingProgress list"

text \<open>The head of the \<^verbatim>\<open>while\<close> loop of \<^verbatim>\<open>processNext\<close>: with the queue empty the worker
  returns; otherwise it shifts the first chunk, asks for its embedding and waits.\<close>

definition worker_loop :: "pool_state \<Rightarrow> pool_state" where
  "worker_loop st =
     (case ps_queue st of
        [] \<Rightarrow> st
      | i # rest \<Rightarrow> st \<lparr> ps_queue := rest, ps_waiting := ps_waiting st @ [i] \<rparr>)"

text \<open>The report after a chunk: \<^verbatim>\<open>70 + (completedChunks / totalChunks) * 20\<close>.\<close>

definition chunk_progress :: "bool \<Rightarrow> nat \<Rightarrow> nat \<Rightarrow> ProcessingProgress list" where
  "chunk_progress cb completedChunks totalChunks =
     updateProgress cb Stage_embedding
       (js_add (Num 70)
          (js_mul (js_div (Num (real completedChunks)) (Num (real totalChunks))) (Num 20)))
       (''Processing chunk '' @ show_nat completedChunks @ '' of '' @ show_nat totalChunks)"

text \<open>
  One promise settles: the worker at position \<open>k\<close> of the waiting list goes on. When the
  embedding failed the worker's promise is rejected with the error. Otherwise the worker
  stores the embedding in its chunk, counts, reports, and is back at the head of its loop.
\<close>

definition settle ::
  "(string \<Rightarrow> js_error + vector) \<Rightarrow> bool \<Rightarrow> nat \<Rightarrow> nat \<Rightarrow> pool_state \<Rightarrow> js_error + pool_state" where
  "settle generateEmbedding cb totalChunks k st =
     (let i = ps_waiting st ! k;
          others = take k (ps_waiting st) @ drop (Suc k) (ps_waiting st)
      in case generateEmbedding (content (ps_chunks st ! i)) of
           Inl e \<Rightarrow> Inl e
         | Inr v \<Rightarrow>
             let completedChunks = Suc (ps_completed st)
             in Inr (worker_loop
                  (st \<lparr> ps_chunks := (ps_chunks st)[i := (ps_chunks st ! i) \<lparr> embedding := Some v \<rparr>],
                        ps_waiting := others,
                        ps_completed := completedChunks,
                        ps_events := ps_events st @
                          chunk_progress cb completedChunks totalChunks \<rparr>)))"

text \<open>
  \<^verbatim>\<open>await Promise.all(workers)\<close> under a schedule: each entry of the schedule picks, among
  the promises that are pending, the one that settles next. The stage has finished when no
  worker waits any more; it is rejected with the first error; and it is still pending when
  the schedule has ended before that. The run ends at a rejection: \<^verbatim>\<open>processDocument\<close>
  has thrown by then, and what the workers still waiting do afterwards is not part of it.
\<close>

datatype pool_outcome = Finished pool_state | Rejected js_error pool_state | Pending pool_state

fun run_pool ::
  "(string \<Rightarrow> js_error + vector) \<Rightarrow> bool \<Rightarrow> nat \<Rightarrow> nat list \<Rightarrow> pool_state \<Rightarrow> pool_outcome" where
  "run_pool generateEmbedding cb totalChunks [] st =
     (if ps_waiting st = [] then Finished st else Pending st)"
| "run_pool generateEmbedding cb totalChunks (k # schedule) st =
     (if ps_waiting st = [] then Finished st
      else (case settle generateEmbedding cb totalChunks (k mod length (ps_waiting st)) st of
              Inl e \<Rightarrow> Rejected e st
            | Inr st' \<Rightarrow> run_pool generateEmbedding cb totalChunks schedule st'))"

text \<open>The workers are started one after the other, each running to its first \<^verbatim>\<open>await\<close>.\<close>

definition start_workers :: "DocumentChunk list \<Rightarrow> pool_state" where
  "start_workers chunks =
     (worker_loop ^^ min CONCURRENCY_LIMIT (length chunks))
       \<lparr> ps_chunks = chunks, ps_queue = [0 ..< length chunks], ps_waiting = [],
         ps_completed = 0, ps_events = [] \<rparr>"

definition embedding_stage ::
  "(string \<Rightarrow> js_error + vector) \<Rightarrow> bool \<Rightarrow> nat list \<Rightarrow> DocumentChunk list \<Rightarrow> pool_outcome" where
  "embedding_stage generateEmbedding cb schedule chunks =
     run_pool generateEmbedding cb (length chunks) schedule (start_workers chunks)"

section \<open>RAG service: ingesting a document\<close>

definition ingestion_failed ::
  "bool \<Rightarrow> ProcessingProgress list \<Rightarrow> storage \<Rightarrow> js_error
     \<Rightarrow> ProcessingProgress list \<times> storage \<times> (js_error + Document)" where
  "ingestion_failed cb events st e =
     (events @ updateProgress cb Stage_error (Num 0)
                 (''Failed to process document: '' @ failure_text e),
      st, Inl e)"

text \<open>
  \<^verbatim>\<open>PrivacyRAGService.processDocument\<close>: the events, the storage afterwards and the
  document or the error; \<open>None\<close> while the embedding stage is pending under the schedule.
\<close>

definition processDocument ::
  "bool \<Rightarrow> (nat \<Rightarrow> string) \<Rightarrow> nat
     \<Rightarrow> (DocumentType \<Rightarrow> File \<Rightarrow> ProcessingProgress list \<times> (js_error + string))
     \<Rightarrow> (string \<Rightarrow> js_error + vector) \<Rightarrow> nat list \<Rightarrow> storage \<Rightarrow> File
     \<Rightarrow> (ProcessingProgress list \<times> storage \<times> (js_error + Document)) option" where
  "processDocument cb ids now extractText generateEmbedding schedule st file =
     (let ev0 = updateProgress cb Stage_uploading (Num 0) ''Starting document processing...''
      in case documentProcessor_processDocument cb ids now extractText file of
           (evs, Inl e) \<Rightarrow> Some (ingestion_failed cb (ev0 @ evs) st e)
         | (evs, Inr document) \<Rightarrow>
             let ev1 = ev0 @ evs @ updateProgress cb Stage_embedding (Num 70) ''Generating embeddings...'';
                 chunks = (case doc_chunks document of None \<Rightarrow> [] | Some cs \<Rightarrow> cs);
                 embedded =
                   (if length chunks > 0
                    then embedding_stage generateEmbedding cb schedule chunks
                    else Finished \<lparr> ps_chunks = chunks, ps_queue = [], ps_waiting = [],
                                    ps_completed = 0, ps_events = [] \<rparr>)
             in case embedded of
                  Pending pst \<Rightarrow> None
                | Rejected e pst \<Rightarrow> Some (ingestion_failed cb (ev1 @ ps_events pst) st e)
                | Finished pst \<Rightarrow>
                    let document' =
                          (if length chunks > 0
                           then document \<lparr> doc_chunks := Some (ps_chunks pst) \<rparr>
                           else document);
                        ev2 = ev1 @ ps_events pst
                                @ updateProgress cb Stage_indexing (Num 95) ''Saving to local index...''
                    in (case saveDocument st document' of
                          Inl e \<Rightarrow> Some (ingestion_failed cb ev2 st e)
                        | Inr st' \<Rightarrow>
                            Some (ev2 @ updateProgress cb Stage_complete (Num 100)
                                          ''Document ready for analysis!'',
                                  st', Inr document')))"

section \<open>RAG service: answering a question\<close>












section \<open>Example data\<close>

text \<open>Concrete inputs on which the definitions are run.\<close>

subsection \<open>A store and an embedder\<close>

definition example_chunk :: "string \<Rightarrow> string \<Rightarrow> vector \<Rightarrow> StoredChunk" where
  "example_chunk k d e =
     \<lparr> sc_id = k, sc_documentId = d, sc_content = ''hello'', sc_startIndex = 0, sc_endIndex = 5,
       sc_page = None, sc_embedding = Some e \<rparr>"

definition example_storage :: storage where
  "example_storage =
     Some \<lparr> db_documents = [],
            db_chunks = [example_chunk ''c1'' ''d1'' [Num (3 / 5), Num (4 / 5)],
                         example_chunk ''c2'' ''d2'' [Num 1, Num 0],
                         example_chunk ''c3'' ''d2'' [Num 1]],
            db_chat_history = [] \<rparr>"

definition example_embedder :: "string \<Rightarrow> js_error + vector" where
  "example_embedder text = Inr [Num 1, Num 0]"

definition default_options :: SearchOptions where
  "default_options = \<lparr> opt_topK = None, opt_threshold = None, opt_documentIds = None \<rparr>"

subsection \<open>Texts and documents\<close>

definition example_document :: "DocumentType \<Rightarrow> Document" where
  "example_document t =
     \<lparr> doc_id = ''d'', doc_name = ''f'', doc_content = [], doc_type = t, doc_size = 1,
       uploadedAt = 0, processedAt = None, doc_chunks = None \<rparr>"

definition example_ids :: "nat \<Rightarrow> string" where
  "example_ids k = CHR ''c'' # replicate k (CHR ''i'')"

definition two_paragraphs :: string where
  "two_paragraphs = ''ab'' @ [newline, newline] @ ''cd''"

text \<open>What \<^verbatim>\<open>processPDF\<close> returns for two pages with the texts \<open>A\<close> and \<open>B\<close>.\<close>

definition two_page_text :: string where
  "two_page_text =
     ''--- Page 1 ---'' @ [newline] @ ''A'' @ [newline, newline] @ ''--- Page 2 ---'' @ [newline] @ ''B''"

text \<open>Two pages again, the first with nine short paragraphs and the second with two.\<close>

definition long_page_text :: string where
  "long_page_text =
     ''--- Page 1 ---'' @ [newline] @ ''A'' @ [newline, newline] @ ''B'' @ [newline, newline]
       @ ''C'' @ [newline, newline] @ ''D'' @ [newline, newline] @ ''E'' @ [newline, newline]
       @ ''F'' @ [newline, newline] @ ''G'' @ [newline, newline] @ ''H'' @ [newline, newline]
       @ ''I'' @ [newline, newline] @ ''--- Page 2 ---'' @ [newline] @ ''X'' @ [newline, newline]
       @ ''Y''"

subsection \<open>Files, embedders and a generator\<close>

definition three_paragraphs :: string where
  "three_paragraphs = ''ab'' @ [newline, newline] @ ''cd'' @ [newline, newline] @ ''ef''"

definition three_chunks :: "DocumentChunk list" where
  "three_chunks = chunkDocument example_ids three_paragraphs (example_document Txt)"

definition example_file :: File where
  "example_file = \<lparr> file_name = ''notes.txt'', file_type = ''text/plain'', file_size = 6 \<rparr>"

definition example_extractor ::
  "DocumentType \<Rightarrow> File \<Rightarrow> ProcessingProgress list \<times> (js_error + string)" where
  "example_extractor t file = ([], Inr two_paragraphs)"

definition empty_storage :: storage where
  "empty_storage = Some \<lparr> db_documents = [], db_chunks = [], db_chat_history = [] \<rparr>"

text \<open>An embedder that fails on the text \<open>cd\<close>, one that fails on every text, and a
  generator that always answers.\<close>

definition failing_embedder :: "string \<Rightarrow> js_error + vector" where
  "failing_embedder s = (if s = ''cd'' then Inl (Error ''out of memory'') else Inr [Num 1, Num 0])"



section \<open>Auxiliary predicates\<close>

subsection \<open>Sums of squares\<close>

text \<open>The values a sum of squares can take: never negative, never \<^verbatim>\<open>-Infinity\<close>.\<close>

definition nonneg :: "jsnum \<Rightarrow> bool" where
  "nonneg n = (case n of NaN \<Rightarrow> True | PosInf \<Rightarrow> True | NegInf \<Rightarrow> False | Num x \<Rightarrow> 0 \<le> x)"

subsection \<open>Orderings of chunk lists\<close>

abbreviation starts_ascend :: "DocumentChunk list \<Rightarrow> bool" where
  "starts_ascend \<equiv> sorted_wrt (\<lambda>a b. startIndex a < startIndex b)"

abbreviation ranges_disjoint :: "DocumentChunk list \<Rightarrow> bool" where
  "ranges_disjoint \<equiv> sorted_wrt (\<lambda>a b. endIndex a \<le> startIndex b)"

text \<open>A later chunk starts at most \<^verbatim>\<open>OVERLAP\<close> characters before the end of an earlier one.\<close>

abbreviation overlap_bounded :: "DocumentChunk list \<Rightarrow> bool" where
  "overlap_bounded \<equiv> sorted_wrt (\<lambda>a b. endIndex a \<le> startIndex b + OVERLAP)"

subsection \<open>Invariant of the embedding workers\<close>

text \<open>
  Between two steps of the workers the chunks are the document's chunks up to their
  embeddings; every position is in the queue, awaited by a worker, or holds the embedding
  the embedder returned for its content; and while the queue is not empty a worker is
  waiting. \<open>remaining\<close> counts the chunks not yet embedded.
\<close>

definition same_but_embedding :: "DocumentChunk \<Rightarrow> DocumentChunk \<Rightarrow> bool" where
  "same_but_embedding a b = (a \<lparr> embedding := None \<rparr> = b \<lparr> embedding := None \<rparr>)"

definition embedded_by :: "(string \<Rightarrow> js_error + vector) \<Rightarrow> DocumentChunk \<Rightarrow> bool" where
  "embedded_by emb c = (\<exists>v. embedding c = Some v \<and> emb (content c) = Inr v)"

definition pool_inv :: "(string \<Rightarrow> js_error + vector) \<Rightarrow> DocumentChunk list \<Rightarrow> pool_state \<Rightarrow> bool" where
  "pool_inv emb chunks st =
     (list_all2 same_but_embedding (ps_chunks st) chunks \<and>
      (\<forall>i \<in> set (ps_queue st) \<union> set (ps_waiting st). i < length chunks) \<and>
      (\<forall>i < length chunks. i \<in> set (ps_queue st) \<or> i \<in> set (ps_waiting st)
          \<or> embedded_by emb (ps_chunks st ! i)) \<and>
      (ps_queue st \<noteq> [] \<longrightarrow> ps_waiting st \<noteq> []))"

definition remaining :: "pool_state \<Rightarrow> nat" where
  "remaining st = length (ps_queue st) + length (ps_waiting st)"

section \<open>Facts about JavaScript numbers and vectors\<close>

lemma nonneg_square: "nonneg (js_mul x x)"
  by (cases x) (auto simp: nonneg_def)

lemma nonneg_add: "nonneg a \<Longrightarrow> nonneg b \<Longrightarrow> nonneg (js_add a b)"
  by (cases a; cases b) (auto simp: nonneg_def)

lemma add_zero_nonneg: "nonneg a \<Longrightarrow> nonneg b \<Longrightarrow> js_add a b = Num 0 \<Longrightarrow> a = Num 0 \<and> b = Num 0"
  by (cases a; cases b) (auto simp: nonneg_def)

lemma square_zero: "js_mul x x = Num 0 \<Longrightarrow> x = Num 0"
  by (cases x) (auto split: if_splits)

lemma mul_zero_left: "js_mul (Num 0) y = Num 0 \<or> js_mul (Num 0) y = NaN"
  by (cases y) auto

lemma mul_zero_right: "js_mul y (Num 0) = Num 0 \<or> js_mul y (Num 0) = NaN"
  by (cases y) auto

lemma add_zero_or_nan: "b = Num 0 \<or> b = NaN \<Longrightarrow> js_add a b = a \<or> js_add a b = NaN"
  by (cases a) auto

lemma sqrt_zero_iff: "nonneg n \<Longrightarrow> js_sqrt n = Num 0 \<longleftrightarrow> n = Num 0"
  by (cases n) (auto simp: nonneg_def)

lemma not_ge_zero_positive: "js_gt t (Num 0) \<Longrightarrow> \<not> js_ge (Num 0) t"
  by (cases t) auto

lemma relaxed_positive: "js_gt t (Num 0) \<Longrightarrow> js_gt (js_mul t (Num (8 / 10))) (Num 0)"
  by (cases t) auto

lemma similarity_loop_step:
  "similarity_loop (x # xs) (y # ys) (d0, na0, nb0) = (d, na, nb) \<Longrightarrow>
   similarity_loop xs ys
     (js_add d0 (js_mul x y), js_add na0 (js_mul x x), js_add nb0 (js_mul y y)) = (d, na, nb)"
  by simp

text \<open>Both accumulated norms stay sums of squares.\<close>

lemma loop_norms_nonneg:
  "similarity_loop xs ys (d0, na0, nb0) = (d, na, nb) \<Longrightarrow> nonneg na0 \<Longrightarrow> nonneg nb0
     \<Longrightarrow> nonneg na \<and> nonneg nb"
proof (induction xs arbitrary: ys d0 na0 nb0)
  case Nil
  then show ?case by simp
next
  case (Cons x xs)
  show ?case
  proof (cases ys)
    case Nil
    with Cons.prems show ?thesis by simp
  next
    case (Cons y ys')
    with Cons.prems have run: "similarity_loop xs ys'
       (js_add d0 (js_mul x y), js_add na0 (js_mul x x), js_add nb0 (js_mul y y)) = (d, na, nb)"
      by simp
    show ?thesis
      by (rule Cons.IH[OF run]) (simp_all add: nonneg_add nonneg_square Cons.prems)
  qed
qed

text \<open>A norm that ends at zero was zero all along, and every entry it summed was zero.\<close>

lemma loop_normA_zero_start:
  "similarity_loop xs ys (d0, na0, nb0) = (d, na, nb) \<Longrightarrow> nonneg na0 \<Longrightarrow> na = Num 0
     \<Longrightarrow> na0 = Num 0"
proof (induction xs arbitrary: ys d0 na0 nb0)
  case Nil
  then show ?case by simp
next
  case (Cons x xs)
  show ?case
  proof (cases ys)
    case Nil
    with Cons.prems show ?thesis by simp
  next
    case (Cons y ys')
    with Cons.prems have run: "similarity_loop xs ys'
       (js_add d0 (js_mul x y), js_add na0 (js_mul x x), js_add nb0 (js_mul y y)) = (d, na, nb)"
      by simp
    have nn: "nonneg (js_add na0 (js_mul x x))"
      by (simp add: nonneg_add nonneg_square Cons.prems)
    have "js_add na0 (js_mul x x) = Num 0"
      by (rule Cons.IH[OF run nn Cons.prems(3)])
    then show ?thesis
      using add_zero_nonneg[OF Cons.prems(2) nonneg_square] by blast
  qed
qed

lemma loop_normB_zero_start:
  "similarity_loop xs ys (d0, na0, nb0) = (d, na, nb) \<Longrightarrow> nonneg nb0 \<Longrightarrow> nb = Num 0
     \<Longrightarrow> nb0 = Num 0"
proof (induction xs arbitrary: ys d0 na0 nb0)
  case Nil
  then show ?case by simp
next
  case (Cons x xs)
  show ?case
  proof (cases ys)
    case Nil
    with Cons.prems show ?thesis by simp
  next
    case (Cons y ys')
    with Cons.prems have run: "similarity_loop xs ys'
       (js_add d0 (js_mul x y), js_add na0 (js_mul x x), js_add nb0 (js_mul y y)) = (d, na, nb)"
      by simp
    have nn: "nonneg (js_add nb0 (js_mul y y))"
      by (simp add: nonneg_add nonneg_square Cons.prems)
    have "js_add nb0 (js_mul y y) = Num 0"
      by (rule Cons.IH[OF run nn Cons.prems(3)])
    then show ?thesis
      using add_zero_nonneg[OF Cons.prems(2) nonneg_square] by blast
  qed
qed

text \<open>With a zero norm on either side the dot product never leaves its start value,
  unless it became \<^verbatim>\<open>NaN\<close>.\<close>

lemma loop_normA_zero:
  "similarity_loop xs ys (d0, na0, nb0) = (d, na, nb) \<Longrightarrow> nonneg na0 \<Longrightarrow> na = Num 0
     \<Longrightarrow> d = d0 \<or> d = NaN"
proof (induction xs arbitrary: ys d0 na0 nb0)
  case Nil
  then show ?case by simp
next
  case (Cons x xs)
  show ?case
  proof (cases ys)
    case Nil
    with Cons.prems show ?thesis by simp
  next
    case (Cons y ys')
    with Cons.prems have run: "similarity_loop xs ys'
       (js_add d0 (js_mul x y), js_add na0 (js_mul x x), js_add nb0 (js_mul y y)) = (d, na, nb)"
      by simp
    have nn: "nonneg (js_add na0 (js_mul x x))"
      by (simp add: nonneg_add nonneg_square Cons.prems)
    have d: "d = js_add d0 (js_mul x y) \<or> d = NaN"
      by (rule Cons.IH[OF run nn Cons.prems(3)])
    have "js_add na0 (js_mul x x) = Num 0"
      by (rule loop_normA_zero_start[OF run nn Cons.prems(3)])
    then have "x = Num 0"
      using add_zero_nonneg[OF Cons.prems(2) nonneg_square] square_zero by blast
    then have "js_add d0 (js_mul x y) = d0 \<or> js_add d0 (js_mul x y) = NaN"
      using mul_zero_left add_zero_or_nan by blast
    with d show ?thesis by auto
  qed
qed

lemma loop_normB_zero:
  "similarity_loop xs ys (d0, na0, nb0) = (d, na, nb) \<Longrightarrow> nonneg nb0 \<Longrightarrow> nb = Num 0
     \<Longrightarrow> d = d0 \<or> d = NaN"
proof (induction xs arbitrary: ys d0 na0 nb0)
  case Nil
  then show ?case by simp
next
  case (Cons x xs)
  show ?case
  proof (cases ys)
    case Nil
    with Cons.prems show ?thesis by simp
  next
    case (Cons y ys')
    with Cons.prems have run: "similarity_loop xs ys'
       (js_add d0 (js_mul x y), js_add na0 (js_mul x x), js_add nb0 (js_mul y y)) = (d, na, nb)"
      by simp
    have nn: "nonneg (js_add nb0 (js_mul y y))"
      by (simp add: nonneg_add nonneg_square Cons.prems)
    have d: "d = js_add d0 (js_mul x y) \<or> d = NaN"
      by (rule Cons.IH[OF run nn Cons.prems(3)])
    have "js_add nb0 (js_mul y y) = Num 0"
      by (rule loop_normB_zero_start[OF run nn Cons.prems(3)])
    then have "y = Num 0"
      using add_zero_nonneg[OF Cons.prems(2) nonneg_square] square_zero by blast
    then have "js_add d0 (js_mul x y) = d0 \<or> js_add d0 (js_mul x y) = NaN"
      using mul_zero_right add_zero_or_nan by blast
    with d show ?thesis by auto
  qed
qed

lemma div_zero_by_zero_norm:
  assumes "d = Num 0 \<or> d = NaN" and "s = Num 0 \<or> t = Num 0"
  shows "js_div d (js_mul s t) = NaN"
proof -
  from assms(2) have "js_mul s t = Num 0 \<or> js_mul s t = NaN"
    using mul_zero_left mul_zero_right by metis
  with assms(1) show ?thesis by auto
qed

lemma calculateSimilarity_eq: "calculateSimilarity a b = cosineSimilarity a b"
  by (simp add: calculateSimilarity_def cosineSimilarity_def)

lemma mismatch_zero: "length a \<noteq> length b \<Longrightarrow> cosineSimilarity a b = Num 0"
  by (simp add: cosineSimilarity_def)

lemma similarity_example:
  "cosineSimilarity [Num 1, Num 0] [Num (3 / 5), Num (4 / 5)] = Num (3 / 5)"
  by (simp add: cosineSimilarity_def)

section \<open>Facts about the sort, the slice and the stores\<close>

lemma set_insert_by_similarity: "set (insert_by_similarity a bs) = insert a (set bs)"
  by (induction bs) auto

lemma set_sort_by_similarity: "set (sort_by_similarity rs) = set rs"
  unfolding sort_by_similarity_def by (induction rs) (auto simp: set_insert_by_similarity)

lemma set_js_slice0: "set (js_slice0 e xs) \<subseteq> set xs"
  unfolding js_slice0_def by (auto dest: in_set_takeD)

lemma length_js_slice0: "0 \<le> e \<Longrightarrow> int (length (js_slice0 e xs)) \<le> e"
  unfolding js_slice0_def by auto

lemma embedding_toDocumentChunk:
  "has_embedding sc \<Longrightarrow> embedding (toDocumentChunk sc) = Some (stored_embedding sc)"
  by (auto simp: has_embedding_def toDocumentChunk_def stored_embedding_def split: option.splits)

lemma foldl_os_delete:
  "set (foldl (\<lambda>store chunk. os_delete sc_id (sc_id chunk) store) xs ds)
     = {c \<in> set xs. sc_id c \<notin> sc_id ` set ds}"
  by (induction ds arbitrary: xs) (auto simp: os_delete_def)

text \<open>Every chunk \<^verbatim>\<open>searchChunks\<close> returns is a stored chunk with an embedding whose
  similarity passed the threshold.\<close>

lemma searchChunks_sound:
  assumes "searchChunks st q topK threshold = Inr found" and "c \<in> set found"
  shows "\<exists>db sc. st = Some db \<and> sc \<in> set (db_chunks db) \<and> c = toDocumentChunk sc \<and> has_embedding sc
           \<and> js_ge (cosineSimilarity q (stored_embedding sc)) threshold"
proof -
  from assms(1) obtain db where db: "st = Some db"
    by (cases st) (auto simp: searchChunks_def ensureDB_def)
  let ?scored = "filter (\<lambda>result. js_ge (snd result) threshold)
                      (map (\<lambda>chunk. (toDocumentChunk chunk,
                                      cosineSimilarity q (stored_embedding chunk)))
                        (filter has_embedding (db_chunks db)))"
  from assms(1) db have "found = map fst (js_slice0 topK (sort_by_similarity ?scored))"
    by (simp add: searchChunks_def ensureDB_def)
  with assms(2) obtain p where "p \<in> set (js_slice0 topK (sort_by_similarity ?scored))" "c = fst p"
    by auto
  then have "p \<in> set ?scored"
    using set_js_slice0 set_sort_by_similarity by fastforce
  with \<open>c = fst p\<close> db show ?thesis by auto
qed

lemma searchChunks_dimension:
  assumes "searchChunks st q topK threshold = Inr found" and "c \<in> set found"
    and "js_gt threshold (Num 0)"
  shows "\<exists>e. embedding c = Some e \<and> length e = length q"
proof -
  from searchChunks_sound[OF assms(1,2)] obtain sc where
    sc: "c = toDocumentChunk sc" "has_embedding sc"
        "js_ge (cosineSimilarity q (stored_embedding sc)) threshold"
    by blast
  have "length q = length (stored_embedding sc)"
  proof (rule ccontr)
    assume "length q \<noteq> length (stored_embedding sc)"
    then have "cosineSimilarity q (stored_embedding sc) = Num 0" by (rule mismatch_zero)
    with sc(3) not_ge_zero_positive[OF assms(3)] show False by simp
  qed
  with sc show ?thesis by (simp add: embedding_toDocumentChunk)
qed

text \<open>What a successful \<^verbatim>\<open>searchDocuments\<close> did: it embedded the query, searched with twice
  \<open>topK\<close> and eight tenths of the threshold, filtered and cut.\<close>

lemma searchDocuments_found:
  assumes "searchDocuments gen st query options = Inr r"
  shows "\<exists>q found filtered. gen query = Inr q
          \<and> searchChunks st q (topK_of options * 2) (js_mul (threshold_of options) (Num (8 / 10))) = Inr found
          \<and> set filtered \<subseteq> set found
          \<and> result_chunks r = js_slice0 (topK_of options) filtered"
proof -
  from assms obtain q where q: "gen query = Inr q"
    by (cases "gen query") (simp_all add: searchDocuments_def Let_def)
  from assms q obtain found where
    found: "searchChunks st q (topK_of options * 2) (js_mul (threshold_of options) (Num (8 / 10))) = Inr found"
    by (cases "searchChunks st q (topK_of options * 2) (js_mul (threshold_of options) (Num (8 / 10)))")
       (simp_all add: searchDocuments_def Let_def)
  define filtered where "filtered = (case opt_documentIds options of
                           None \<Rightarrow> found
                         | Some documentIds \<Rightarrow>
                             if length documentIds > 0
                             then filter (\<lambda>chunk. documentId chunk \<in> set documentIds) found
                             else found)"
  have sub: "set filtered \<subseteq> set found"
    by (auto simp: filtered_def split: option.splits)
  from assms q found have "result_chunks r = js_slice0 (topK_of options) filtered"
    by (auto simp: searchDocuments_def Let_def filtered_def)
  with q found sub show ?thesis by blast
qed

lemma searchDocuments_subset:
  assumes "searchDocuments gen st query options = Inr r"
  shows "\<exists>q found. gen query = Inr q
          \<and> searchChunks st q (topK_of options * 2) (js_mul (threshold_of options) (Num (8 / 10))) = Inr found
          \<and> set (result_chunks r) \<subseteq> set found"
proof -
  from searchDocuments_found[OF assms] obtain q found filtered where
    *: "gen query = Inr q"
       "searchChunks st q (topK_of options * 2) (js_mul (threshold_of options) (Num (8 / 10))) = Inr found"
       "set filtered \<subseteq> set found" "result_chunks r = js_slice0 (topK_of options) filtered"
    by blast
  then have "set (result_chunks r) \<subseteq> set found"
    using set_js_slice0 by fastforce
  with * show ?thesis by blast
qed

lemma example_search:
  "searchDocuments example_embedder example_storage ''q'' default_options =
     Inr \<lparr> result_chunks =
             [toDocumentChunk (example_chunk ''c2'' ''d2'' [Num 1, Num 0]),
              toDocumentChunk (example_chunk ''c1'' ''d1'' [Num (3 / 5), Num (4 / 5)])],
           totalResults = 2, maxRelevanceScore = Num 1, averageRelevanceScore = Num (4 / 5) \<rparr>"
  by (simp add: searchDocuments_def searchChunks_def ensureDB_def example_storage_def
      example_embedder_def default_options_def topK_of_def threshold_of_def example_chunk_def
      has_embedding_def stored_embedding_def cosineSimilarity_def calculateSimilarity_def
      sort_by_similarity_def js_slice0_def js_sub_def js_max_def toDocumentChunk_def)

section \<open>Similarity search (claim C1)\<close>

lemma searchChunks_length:
  assumes "searchChunks st q topK threshold = Inr found" and "0 \<le> topK"
  shows "int (length found) \<le> topK"
proof -
  from assms(1) obtain rs :: "(DocumentChunk \<times> jsnum) list"
    where "found = map fst (js_slice0 topK rs)"
    by (cases st) (auto simp: searchChunks_def ensureDB_def)
  then show ?thesis
    using length_js_slice0[OF assms(2), of rs] by simp
qed

text \<open>
  Claim C1, as the code has it: \<^verbatim>\<open>searchDocuments\<close> returns at most \<open>topK\<close> chunks (for a
  \<open>topK\<close> that is not negative), each with an embedding whose cosine similarity to the query
  embedding is at least eight tenths of the caller's threshold: the service passes
  \<^verbatim>\<open>threshold * 0.8\<close> to \<^verbatim>\<open>searchChunks\<close> and filters by no score afterwards.
  \<^verbatim>\<open>searchChunks\<close> itself keeps to the \<open>topK\<close> and the threshold it is called with.
\<close>

theorem searchDocuments_topK_relaxed_threshold:
  assumes "searchDocuments generateEmbedding st query options = Inr r"
    and "0 \<le> topK_of options"
  shows "int (length (result_chunks r)) \<le> topK_of options \<and>
         (\<exists>q. generateEmbedding query = Inr q \<and>
            (\<forall>c \<in> set (result_chunks r). \<exists>e. embedding c = Some e \<and>
               js_ge (cosineSimilarity q e) (js_mul (threshold_of options) (Num (8 / 10))))) \<and>
         (\<forall>db q topK threshold found.
            searchChunks db q topK threshold = Inr found \<and> 0 \<le> topK \<longrightarrow>
              int (length found) \<le> topK \<and>
              (\<forall>c \<in> set found. \<exists>e. embedding c = Some e \<and>
                 js_ge (cosineSimilarity q e) threshold))"
proof -
  from searchDocuments_found[OF assms(1)] obtain q found filtered where
    q: "generateEmbedding query = Inr q" and
    found: "searchChunks st q (topK_of options * 2) (js_mul (threshold_of options) (Num (8 / 10))) = Inr found" and
    sub: "set filtered \<subseteq> set found" and
    r: "result_chunks r = js_slice0 (topK_of options) filtered"
    by blast
  have len: "int (length (result_chunks r)) \<le> topK_of options"
    unfolding r using assms(2) by (rule length_js_slice0)
  have "\<exists>e. embedding c = Some e \<and>
               js_ge (cosineSimilarity q e) (js_mul (threshold_of options) (Num (8 / 10)))"
    if "c \<in> set (result_chunks r)" for c
  proof -
    from that have "c \<in> set found" using r sub set_js_slice0 by fastforce
    from searchChunks_sound[OF found this] show ?thesis
      by (auto simp: embedding_toDocumentChunk)
  qed
  with len q have documents: "int (length (result_chunks r)) \<le> topK_of options \<and>
         (\<exists>q. generateEmbedding query = Inr q \<and>
            (\<forall>c \<in> set (result_chunks r). \<exists>e. embedding c = Some e \<and>
               js_ge (cosineSimilarity q e) (js_mul (threshold_of options) (Num (8 / 10)))))"
    by blast
  have chunks: "int (length fs) \<le> k \<and>
              (\<forall>c \<in> set fs. \<exists>e. embedding c = Some e \<and> js_ge (cosineSimilarity v e) t)"
    if "searchChunks db v k t = Inr fs \<and> 0 \<le> k" for db v k t fs
  proof -
    from that have s: "searchChunks db v k t = Inr fs" and k: "0 \<le> k" by simp_all
    have "\<exists>e. embedding c = Some e \<and> js_ge (cosineSimilarity v e) t" if "c \<in> set fs" for c
      using searchChunks_sound[OF s that] by (auto simp: embedding_toDocumentChunk)
    with searchChunks_length[OF s k] show ?thesis by blast
  qed
  from documents chunks show ?thesis by blast
qed

text \<open>The theorem at the example store, with the default options (\<open>topK = 5\<close>,
  \<open>threshold = 0.7\<close>): two chunks come back, both at or above \<open>0.56\<close>.\<close>

theorem searchDocuments_topK_relaxed_threshold_witness:
  "(0::int) \<le> topK_of default_options \<and>
   (\<exists>r. searchDocuments example_embedder example_storage ''q'' default_options = Inr r \<and>
      length (result_chunks r) = 2 \<and> int (length (result_chunks r)) \<le> topK_of default_options \<and>
      js_ge (cosineSimilarity [Num 1, Num 0] [Num (3 / 5), Num (4 / 5)])
        (js_mul (threshold_of default_options) (Num (8 / 10))))"
proof -
  have k: "(0::int) \<le> topK_of default_options"
    by (simp add: topK_of_def default_options_def)
  have e: "example_embedder ''q'' = Inr [Num 1, Num 0]"
    by (simp add: example_embedder_def)
  note t = searchDocuments_topK_relaxed_threshold[OF example_search k]
  from t e have "\<exists>e. embedding (toDocumentChunk (example_chunk ''c1'' ''d1'' [Num (3 / 5), Num (4 / 5)])) = Some e \<and>
      js_ge (cosineSimilarity [Num 1, Num 0] e) (js_mul (threshold_of default_options) (Num (8 / 10)))"
    by simp
  then have "js_ge (cosineSimilarity [Num 1, Num 0] [Num (3 / 5), Num (4 / 5)])
        (js_mul (threshold_of default_options) (Num (8 / 10)))"
    by (simp add: toDocumentChunk_def example_chunk_def)
  with k t example_search show ?thesis by simp
qed

text \<open>The claim as stated fails there: the chunk \<open>c1\<close> is returned with similarity \<open>0.6\<close>,
  below the threshold \<open>0.7\<close> the caller asked for.\<close>

theorem searchDocuments_threshold_counterexample:
  "searchDocuments example_embedder example_storage ''q'' default_options =
     Inr \<lparr> result_chunks =
             [toDocumentChunk (example_chunk ''c2'' ''d2'' [Num 1, Num 0]),
              toDocumentChunk (example_chunk ''c1'' ''d1'' [Num (3 / 5), Num (4 / 5)])],
           totalResults = 2, maxRelevanceScore = Num 1, averageRelevanceScore = Num (4 / 5) \<rparr> \<and>
   example_embedder ''q'' = Inr [Num 1, Num 0] \<and>
   embedding (toDocumentChunk (example_chunk ''c1'' ''d1'' [Num (3 / 5), Num (4 / 5)]))
     = Some [Num (3 / 5), Num (4 / 5)] \<and>
   threshold_of default_options = Num (7 / 10) \<and>
   \<not> js_ge (cosineSimilarity [Num 1, Num 0] [Num (3 / 5), Num (4 / 5)]) (threshold_of default_options)"
proof -
  have a: "example_embedder ''q'' = Inr [Num 1, Num 0]"
    by (simp add: example_embedder_def)
  have b: "embedding (toDocumentChunk (example_chunk ''c1'' ''d1'' [Num (3 / 5), Num (4 / 5)]))
     = Some [Num (3 / 5), Num (4 / 5)]"
    by (simp add: toDocumentChunk_def example_chunk_def)
  have c: "threshold_of default_options = Num (7 / 10)"
    by (simp add: threshold_of_def default_options_def)
  have d: "\<not> js_ge (cosineSimilarity [Num 1, Num 0] [Num (3 / 5), Num (4 / 5)]) (threshold_of default_options)"
    by (simp add: similarity_example c)
  from example_search a b c d show ?thesis by (intro conjI)
qed

section \<open>Zero vectors (claim C2)\<close>

text \<open>
  Claim C2, as the code has it: for two vectors of equal length, when either norm is zero
  both similarity functions return \<^verbatim>\<open>NaN\<close>, not 0. The code divides by the product of the
  norms without a test, and the dot product of such a pair is 0 (or already \<^verbatim>\<open>NaN\<close>), so
  the division is \<^verbatim>\<open>0/0\<close>.
\<close>

theorem zero_norm_gives_NaN:
  assumes "length a = length b"
    and "similarity_loop a b (Num 0, Num 0, Num 0) = (dotProduct, normA, normB)"
    and "js_sqrt normA = Num 0 \<or> js_sqrt normB = Num 0"
  shows "cosineSimilarity a b = NaN \<and> calculateSimilarity a b = NaN \<and>
         cosineSimilarity a b \<noteq> Num 0 \<and> calculateSimilarity a b \<noteq> Num 0"
proof -
  have z: "nonneg (Num 0)" by (simp add: nonneg_def)
  have nn: "nonneg normA \<and> nonneg normB"
    by (rule loop_norms_nonneg[OF assms(2) z z])
  have "dotProduct = Num 0 \<or> dotProduct = NaN"
    using assms(3) nn sqrt_zero_iff loop_normA_zero[OF assms(2) z] loop_normB_zero[OF assms(2) z]
    by blast
  then have "js_div dotProduct (js_mul (js_sqrt normA) (js_sqrt normB)) = NaN"
    using assms(3) by (rule div_zero_by_zero_norm)
  then show ?thesis
    using assms(1,2) by (simp add: cosineSimilarity_def calculateSimilarity_def)
qed

theorem zero_norm_gives_NaN_witness:
  "length [Num 0, Num 0] = length [Num 1, Num 0] \<and>
   similarity_loop [Num 0, Num 0] [Num 1, Num 0] (Num 0, Num 0, Num 0) = (Num 0, Num 0, Num 1) \<and>
   js_sqrt (Num 0) = Num 0 \<and>
   cosineSimilarity [Num 0, Num 0] [Num 1, Num 0] = NaN \<and>
   calculateSimilarity [Num 0, Num 0] [Num 1, Num 0] = NaN"
  using zero_norm_gives_NaN[of "[Num 0, Num 0]" "[Num 1, Num 0]" "Num 0" "Num 0" "Num 1"]
  by simp

text \<open>The claim as stated fails at the all-zero vector \<open>[0, 0]\<close> against \<open>[1, 0]\<close>.\<close>

theorem zero_vector_counterexample:
  "cosineSimilarity [Num 0, Num 0] [Num 1, Num 0] = NaN \<and>
   cosineSimilarity [Num 0, Num 0] [Num 1, Num 0] \<noteq> Num 0 \<and>
   calculateSimilarity [Num 0, Num 0] [Num 1, Num 0] \<noteq> Num 0"
  by (simp add: cosineSimilarity_def calculateSimilarity_def)

section \<open>Deleting a document (claim C8)\<close>

lemma deleteDocument_chunks:
  assumes "deleteDocument st k = Inr st'"
  shows "\<exists>db db'. st = Some db \<and> st' = Some db' \<and>
           set (db_chunks db') = {c \<in> set (db_chunks db). 
                sc_id c \<notin> sc_id ` {d \<in> set (db_chunks db). sc_documentId d = k}}"
proof -
  from assms obtain db where db: "st = Some db"
    by (cases st) (auto simp: deleteDocument_def ensureDB_def)
  with assms show ?thesis
    by (auto simp: deleteDocument_def ensureDB_def foldl_os_delete Let_def)
qed

text \<open>
  Claim C8: after \<^verbatim>\<open>deleteDocument(id)\<close> has completed, the chunk store holds no chunk
  whose \<^verbatim>\<open>documentId\<close> is \<open>id\<close>, and no later \<^verbatim>\<open>searchChunks\<close> or \<^verbatim>\<open>searchDocuments\<close>
  returns a chunk with that \<^verbatim>\<open>documentId\<close>.
\<close>

theorem deleteDocument_cascades:
  assumes "deleteDocument st k = Inr st'"
  shows "(\<exists>db'. st' = Some db' \<and> (\<forall>c \<in> set (db_chunks db'). sc_documentId c \<noteq> k)) \<and>
         (\<forall>q topK threshold found. searchChunks st' q topK threshold = Inr found
            \<longrightarrow> (\<forall>c \<in> set found. documentId c \<noteq> k)) \<and>
         (\<forall>gen query options r. searchDocuments gen st' query options = Inr r
            \<longrightarrow> (\<forall>c \<in> set (result_chunks r). documentId c \<noteq> k))"
proof -
  from deleteDocument_chunks[OF assms] obtain db' where
    db': "st' = Some db'" "\<forall>c \<in> set (db_chunks db'). sc_documentId c \<noteq> k"
    by auto
  have 2: "documentId c \<noteq> k"
    if "searchChunks st' q topK threshold = Inr found" "c \<in> set found" for q topK threshold found c
  proof -
    from searchChunks_sound[OF that] db' obtain sc where
      "sc \<in> set (db_chunks db')" "c = toDocumentChunk sc" by auto
    with db'(2) show ?thesis by (auto simp: toDocumentChunk_def)
  qed
  have 3: "documentId c \<noteq> k"
    if "searchDocuments gen st' query options = Inr r" "c \<in> set (result_chunks r)"
    for gen :: "string \<Rightarrow> js_error + vector" and query options r c
  proof -
    from searchDocuments_subset[OF that(1)] that(2) obtain q found where
      "searchChunks st' q (topK_of options * 2) (js_mul (threshold_of options) (Num (8 / 10))) = Inr found"
      "c \<in> set found" by blast
    then show ?thesis by (rule 2)
  qed
  from db' 2 3 show ?thesis by blast
qed

text \<open>Deleting \<open>d2\<close> from the example store leaves the chunk of \<open>d1\<close> alone, and a search
  that accepts every score then returns that chunk only.\<close>

lemma example_delete:
  "deleteDocument example_storage ''d2'' =
     Inr (Some \<lparr> db_documents = [],
                 db_chunks = [example_chunk ''c1'' ''d1'' [Num (3 / 5), Num (4 / 5)]],
                 db_chat_history = [] \<rparr>)"
  by (simp add: deleteDocument_def ensureDB_def example_storage_def example_chunk_def os_delete_def)

theorem deleteDocument_cascades_witness:
  "(\<exists>st'. deleteDocument example_storage ''d2'' = Inr st' \<and>
      searchChunks st' [Num 1, Num 0] 10 (Num 0) =
        Inr [toDocumentChunk (example_chunk ''c1'' ''d1'' [Num (3 / 5), Num (4 / 5)])] \<and>
      documentId (toDocumentChunk (example_chunk ''c1'' ''d1'' [Num (3 / 5), Num (4 / 5)])) \<noteq> ''d2'')"
proof -
  let ?st = "Some \<lparr> db_documents = [],
                 db_chunks = [example_chunk ''c1'' ''d1'' [Num (3 / 5), Num (4 / 5)]],
                 db_chat_history = [] \<rparr>"
  have s: "searchChunks ?st [Num 1, Num 0] 10 (Num 0) =
        Inr [toDocumentChunk (example_chunk ''c1'' ''d1'' [Num (3 / 5), Num (4 / 5)])]"
    by (simp add: searchChunks_def ensureDB_def example_chunk_def
      has_embedding_def stored_embedding_def cosineSimilarity_def
      sort_by_similarity_def js_slice0_def toDocumentChunk_def)
  from deleteDocument_cascades[OF example_delete] s
  have "documentId (toDocumentChunk (example_chunk ''c1'' ''d1'' [Num (3 / 5), Num (4 / 5)])) \<noteq> ''d2''"
    by auto
  with example_delete s show ?thesis by blast
qed

section \<open>Vectors of different lengths (claim C10)\<close>

text \<open>
  Claim C10: for vectors of different lengths both similarity functions return exactly 0
  (they have no error branch); so under a threshold greater than zero no chunk whose stored
  embedding differs in length from the query embedding is among the results of
  \<^verbatim>\<open>searchChunks\<close> or of \<^verbatim>\<open>searchDocuments\<close>, and nothing reports it.
\<close>

theorem dimension_mismatch_scores_zero:
  assumes "length a \<noteq> length b"
  shows "cosineSimilarity a b = Num 0 \<and> calculateSimilarity a b = Num 0 \<and>
         (\<forall>st topK threshold found chunk.
            js_gt threshold (Num 0) \<and> searchChunks st a topK threshold = Inr found \<and> chunk \<in> set found
              \<longrightarrow> embedding chunk \<noteq> Some b) \<and>
         (\<forall>gen st query options r chunk.
            js_gt (threshold_of options) (Num 0) \<and> gen query = Inr a \<and>
            searchDocuments gen st query options = Inr r \<and> chunk \<in> set (result_chunks r)
              \<longrightarrow> embedding chunk \<noteq> Some b)"
proof -
  have 1: "cosineSimilarity a b = Num 0" using assms by (rule mismatch_zero)
  have 2: "calculateSimilarity a b = Num 0" using assms by (simp add: calculateSimilarity_def)
  have 3: "embedding chunk \<noteq> Some b"
    if "js_gt threshold (Num 0)" "searchChunks st a topK threshold = Inr found" "chunk \<in> set found"
    for st topK threshold found chunk
    using searchChunks_dimension[OF that(2,3,1)] assms by auto
  have 4: "embedding chunk \<noteq> Some b"
    if "js_gt (threshold_of options) (Num 0)" "gen query = Inr a"
       "searchDocuments gen st query options = Inr r" "chunk \<in> set (result_chunks r)"
    for gen :: "string \<Rightarrow> js_error + vector" and st query options r chunk
  proof -
    from searchDocuments_subset[OF that(3)] that(2) obtain found where
      f: "searchChunks st a (topK_of options * 2) (js_mul (threshold_of options) (Num (8 / 10))) = Inr found"
         "set (result_chunks r) \<subseteq> set found"
      by auto
    from that(4) f(2) have "chunk \<in> set found" by blast
    from 3[OF relaxed_positive[OF that(1)] f(1) this] show ?thesis .
  qed
  from 1 2 3 4 show ?thesis by blast
qed

text \<open>The example store holds the chunk \<open>c3\<close> with a one-entry embedding; the query embedding
  has two entries, and \<open>c3\<close> is not among the results.\<close>

theorem dimension_mismatch_scores_zero_witness:
  "length [Num 1, Num 0] \<noteq> length [Num 1] \<and>
   cosineSimilarity [Num 1, Num 0] [Num 1] = Num 0 \<and>
   calculateSimilarity [Num 1, Num 0] [Num 1] = Num 0 \<and>
   js_gt (threshold_of default_options) (Num 0) \<and>
   (\<exists>r. searchDocuments example_embedder example_storage ''q'' default_options = Inr r \<and>
      toDocumentChunk (example_chunk ''c3'' ''d2'' [Num 1]) \<notin> set (result_chunks r))"
proof -
  have n: "length [Num 1, Num 0] \<noteq> length [Num 1]" by simp
  have t: "js_gt (threshold_of default_options) (Num 0)"
    by (simp add: threshold_of_def default_options_def)
  have e: "example_embedder ''q'' = Inr [Num 1, Num 0]"
    by (simp add: example_embedder_def)
  note m = dimension_mismatch_scores_zero[OF n]
  have "embedding chunk \<noteq> Some [Num 1]"
    if "chunk \<in> set (result_chunks r)"
       "searchDocuments example_embedder example_storage ''q'' default_options = Inr r" for chunk r
    using m t e that by blast
  moreover have "embedding (toDocumentChunk (example_chunk ''c3'' ''d2'' [Num 1])) = Some [Num 1]"
    by (simp add: toDocumentChunk_def example_chunk_def)
  ultimately have "toDocumentChunk (example_chunk ''c3'' ''d2'' [Num 1]) \<notin> set (result_chunks r)"
    if "searchDocuments example_embedder example_storage ''q'' default_options = Inr r" for r
    using that by blast
  with example_search n t m show ?thesis by blast
qed

section \<open>Facts about the chunker\<close>


lemma length_trim_le: "length (trim s) \<le> length s"
proof -
  have "length (dropWhile is_ws (rev (dropWhile is_ws s))) \<le> length (rev (dropWhile is_ws s))"
    by (rule length_dropWhile_le)
  also have "\<dots> \<le> length s" by (simp add: length_dropWhile_le)
  finally show ?thesis by (simp add: trim_def)
qed

lemma trim_nonempty: "trim s \<noteq> [] \<Longrightarrow> s \<noteq> []"
  by (auto simp: trim_def)

lemma subseq_trim: "subseq (trim s) s"
proof -
  have "suffix (dropWhile is_ws (rev (dropWhile is_ws s))) (rev (dropWhile is_ws s))"
    by (rule suffix_dropWhile)
  then have "prefix (trim s) (dropWhile is_ws s)"
    by (simp add: suffix_to_prefix trim_def)
  then have "subseq (trim s) (dropWhile is_ws s)" by (rule prefix_imp_subseq)
  moreover have "subseq (dropWhile is_ws s) s"
    by (rule suffix_imp_subseq) (rule suffix_dropWhile)
  ultimately show ?thesis by (rule subseq_order.order_trans)
qed

lemma length_js_slice: "length (js_slice s b e) \<le> e - b"
  by (simp add: js_slice_def)

text \<open>What the window loop adds to the list.\<close>

lemma window_push_mem:
  "c \<in> set (window_push ids d p S ps chunks) \<Longrightarrow>
     c \<in> set chunks \<or>
     (content c = trim (js_slice p ps (min (ps + CHUNK_SIZE) (length p))) \<and>
      startIndex c = S + ps \<and> endIndex c = S + min (ps + CHUNK_SIZE) (length p))"
  by (auto simp: window_push_def Let_def new_chunk_def split: if_splits)

lemma window_loop_mem:
  "c \<in> set (window_loop ids d p S ps chunks) \<Longrightarrow>
     c \<in> set chunks \<or>
     (\<exists>b. ps \<le> b \<and> b < length p \<and>
        content c = trim (js_slice p b (min (b + CHUNK_SIZE) (length p))) \<and>
        startIndex c = S + b \<and> endIndex c = S + min (b + CHUNK_SIZE) (length p))"
proof (induction ids d p S ps chunks rule: window_loop.induct)
  case (1 ids d p S ps chunks)
  show ?case
  proof (cases "ps < length p")
    case False
    with "1.prems" show ?thesis by (simp add: window_loop.simps)
  next
    case True
    from "1.prems" True have mem: "c \<in> set (window_loop ids d p S (ps + (CHUNK_SIZE - OVERLAP))
          (window_push ids d p S ps chunks))"
      by (subst (asm) window_loop.simps) simp
    from "1.IH"[OF True mem] show ?thesis
    proof
      assume "c \<in> set (window_push ids d p S ps chunks)"
      from window_push_mem[OF this] True show ?thesis by auto
    next
      assume "\<exists>b. ps + (CHUNK_SIZE - OVERLAP) \<le> b \<and> b < length p \<and>
        content c = trim (js_slice p b (min (b + CHUNK_SIZE) (length p))) \<and>
        startIndex c = S + b \<and> endIndex c = S + min (b + CHUNK_SIZE) (length p)"
      then show ?thesis by auto
    qed
  qed
qed

lemma paragraph_loop_mem:
  "c \<in> set (paragraph_loop ids d ps S chunks) \<Longrightarrow>
     c \<in> set chunks \<or>
     (\<exists>p \<in> set ps. (length p \<le> CHUNK_SIZE \<and> content c = trim p \<and> endIndex c = startIndex c + length p) \<or>
        (\<exists>b. b < length p \<and> content c = trim (js_slice p b (min (b + CHUNK_SIZE) (length p)))
              \<and> endIndex c = startIndex c + (min (b + CHUNK_SIZE) (length p) - b)))"
proof (induction ps arbitrary: S chunks)
  case Nil
  then show ?case by simp
next
  case (Cons p ps)
  show ?case
  proof (cases "length p \<le> CHUNK_SIZE")
    case True
    with Cons.prems have "c \<in> set (paragraph_loop ids d ps (S + length p)
             (chunks @ [new_chunk ids d chunks (trim p) S (S + length p)]))"
      by simp
    from Cons.IH[OF this] True show ?thesis
      by (auto simp: new_chunk_def)
  next
    case False
    with Cons.prems have "c \<in> set (paragraph_loop ids d ps (S + length p)
             (window_loop ids d p S 0 chunks))"
      by simp
    from Cons.IH[OF this] show ?thesis
    proof
      assume "c \<in> set (window_loop ids d p S 0 chunks)"
      from window_loop_mem[OF this] show ?thesis by auto
    qed auto
  qed
qed

lemma addPageNumbers_fields:
  "map content (addPageNumbers chunks text) = map content chunks"
  "map startIndex (addPageNumbers chunks text) = map startIndex chunks"
  "map endIndex (addPageNumbers chunks text) = map endIndex chunks"
  by (simp_all add: addPageNumbers_def comp_def)

lemma chunkDocument_fields:
  "map content (chunkDocument ids text document)
     = map content (paragraph_loop ids (doc_id document) (paragraphs_of text) 0 [])"
  "map startIndex (chunkDocument ids text document)
     = map startIndex (paragraph_loop ids (doc_id document) (paragraphs_of text) 0 [])"
  "map endIndex (chunkDocument ids text document)
     = map endIndex (paragraph_loop ids (doc_id document) (paragraphs_of text) 0 [])"
  by (simp_all add: chunkDocument_def Let_def addPageNumbers_fields)

lemma paragraph_loop_content_bound:
  assumes "c \<in> set (paragraph_loop ids d ps 0 [])"
  shows "length (content c) \<le> CHUNK_SIZE"
proof -
  from paragraph_loop_mem[OF assms] obtain p where
    "(length p \<le> CHUNK_SIZE \<and> content c = trim p) \<or>
        (\<exists>b. b < length p \<and> content c = trim (js_slice p b (min (b + CHUNK_SIZE) (length p))))"
    by auto
  then show ?thesis
  proof
    assume "length p \<le> CHUNK_SIZE \<and> content c = trim p"
    then show ?thesis using length_trim_le[of p] by simp
  next
    assume "\<exists>b. b < length p \<and> content c = trim (js_slice p b (min (b + CHUNK_SIZE) (length p)))"
    then obtain b where b: "content c = trim (js_slice p b (min (b + CHUNK_SIZE) (length p)))" by blast
    have "length (content c) \<le> length (js_slice p b (min (b + CHUNK_SIZE) (length p)))"
      unfolding b by (rule length_trim_le)
    also have "\<dots> \<le> min (b + CHUNK_SIZE) (length p) - b" by (rule length_js_slice)
    also have "\<dots> \<le> CHUNK_SIZE" by simp
    finally show ?thesis .
  qed
qed


lemma window_push_sorted:
  assumes "starts_ascend chunks" and "\<forall>c \<in> set chunks. startIndex c < S + ps"
  shows "starts_ascend (window_push ids d p S ps chunks)"
  using assms by (auto simp: window_push_def Let_def new_chunk_def sorted_wrt_append)

lemma window_push_bound:
  assumes "\<forall>c \<in> set chunks. startIndex c < S + ps" and "0 < k"
  shows "\<forall>c \<in> set (window_push ids d p S ps chunks). startIndex c < S + (ps + k)"
  using assms by (auto simp: window_push_def Let_def new_chunk_def)

lemma window_loop_sorted:
  "starts_ascend chunks \<Longrightarrow> \<forall>c \<in> set chunks. startIndex c < S + ps \<Longrightarrow>
     starts_ascend (window_loop ids d p S ps chunks)"
proof (induction ids d p S ps chunks rule: window_loop.induct)
  case (1 ids d p S ps chunks)
  show ?case
  proof (cases "ps < length p")
    case False
    with "1.prems" show ?thesis by (simp add: window_loop.simps)
  next
    case True
    have k: "0 < CHUNK_SIZE - OVERLAP" by (simp add: CHUNK_SIZE_def OVERLAP_def)
    have "starts_ascend (window_loop ids d p S (ps + (CHUNK_SIZE - OVERLAP))
          (window_push ids d p S ps chunks))"
      by (rule "1.IH"[OF True window_push_sorted[OF "1.prems"] window_push_bound[OF "1.prems"(2) k]])
    with True show ?thesis by (subst window_loop.simps) simp
  qed
qed

lemma window_loop_bound:
  assumes "\<forall>c \<in> set chunks. startIndex c < S + length p"
  shows "\<forall>c \<in> set (window_loop ids d p S ps chunks). startIndex c < S + length p"
proof
  fix c assume "c \<in> set (window_loop ids d p S ps chunks)"
  from window_loop_mem[OF this] assms show "startIndex c < S + length p" by auto
qed

lemma paragraph_loop_sorted:
  "starts_ascend chunks \<Longrightarrow> \<forall>c \<in> set chunks. startIndex c < S \<Longrightarrow> \<forall>p \<in> set ps. p \<noteq> [] \<Longrightarrow>
     starts_ascend (paragraph_loop ids d ps S chunks)"
proof (induction ps arbitrary: S chunks)
  case Nil
  then show ?case by simp
next
  case (Cons p ps)
  from Cons.prems(3) have p: "0 < length p" and ps: "\<forall>p \<in> set ps. p \<noteq> []" by auto
  show ?case
  proof (cases "length p \<le> CHUNK_SIZE")
    case True
    let ?chunks = "chunks @ [new_chunk ids d chunks (trim p) S (S + length p)]"
    have a: "starts_ascend ?chunks"
      using Cons.prems(1,2) by (auto simp: sorted_wrt_append new_chunk_def)
    have b: "\<forall>c \<in> set ?chunks. startIndex c < S + length p"
      using Cons.prems(2) p by (auto simp: new_chunk_def)
    from Cons.IH[OF a b ps] True show ?thesis by simp
  next
    case False
    let ?chunks = "window_loop ids d p S 0 chunks"
    have a: "starts_ascend ?chunks"
      using Cons.prems(1,2) by (intro window_loop_sorted) auto
    have b: "\<forall>c \<in> set ?chunks. startIndex c < S + length p"
      using Cons.prems(2) by (intro window_loop_bound) auto
    from Cons.IH[OF a b ps] False show ?thesis by simp
  qed
qed

lemma paragraphs_nonempty: "\<forall>p \<in> set (paragraphs_of text). p \<noteq> []"
  by (auto simp: paragraphs_of_def trim_def)

lemma addPageNumbers_sorted:
  "starts_ascend (addPageNumbers chunks text) = starts_ascend chunks"
  "ranges_disjoint (addPageNumbers chunks text) = ranges_disjoint chunks"
  by (simp_all add: addPageNumbers_def sorted_wrt_map)

lemma chunkDocument_starts_ascend: "starts_ascend (chunkDocument ids text document)"
proof -
  have "starts_ascend (paragraph_loop ids (doc_id document) (paragraphs_of text) 0 [])"
    by (rule paragraph_loop_sorted) (simp_all add: paragraphs_nonempty)
  then show ?thesis
    by (simp add: chunkDocument_def Let_def addPageNumbers_sorted)
qed

text \<open>Ranges are not empty.\<close>

lemma paragraph_loop_range:
  assumes "c \<in> set (paragraph_loop ids d ps 0 [])" and "\<forall>p \<in> set ps. p \<noteq> []"
  shows "startIndex c < endIndex c"
proof -
  from paragraph_loop_mem[OF assms(1)] obtain p where p: "p \<in> set ps"
    "(length p \<le> CHUNK_SIZE \<and> content c = trim p \<and> endIndex c = startIndex c + length p) \<or>
        (\<exists>b. b < length p \<and> content c = trim (js_slice p b (min (b + CHUNK_SIZE) (length p)))
              \<and> endIndex c = startIndex c + (min (b + CHUNK_SIZE) (length p) - b))"
    by auto
  from p(2) show ?thesis
  proof
    assume "length p \<le> CHUNK_SIZE \<and> content c = trim p \<and> endIndex c = startIndex c + length p"
    with p(1) assms(2) show ?thesis by auto
  next
    assume "\<exists>b. b < length p \<and> content c = trim (js_slice p b (min (b + CHUNK_SIZE) (length p)))
              \<and> endIndex c = startIndex c + (min (b + CHUNK_SIZE) (length p) - b)"
    then show ?thesis by (auto simp: CHUNK_SIZE_def)
  qed
qed

lemma chunkDocument_range:
  assumes "c \<in> set (chunkDocument ids text document)"
  shows "startIndex c < endIndex c"
proof -
  have "c \<in> set (paragraph_loop ids (doc_id document) (paragraphs_of text) 0 []) \<or>
        (\<exists>c' \<in> set (paragraph_loop ids (doc_id document) (paragraphs_of text) 0 []).
            startIndex c = startIndex c' \<and> endIndex c = endIndex c')"
    using assms by (auto simp: chunkDocument_def Let_def addPageNumbers_def split: if_splits)
  then show ?thesis
    using paragraph_loop_range[OF _ paragraphs_nonempty] by auto
qed

text \<open>When every paragraph fits, each becomes one chunk and the ranges follow each other.\<close>

lemma paragraph_loop_short:
  "\<forall>p \<in> set ps. length p \<le> CHUNK_SIZE \<Longrightarrow> ranges_disjoint chunks \<Longrightarrow>
   \<forall>c \<in> set chunks. endIndex c \<le> S \<Longrightarrow>
     ranges_disjoint (paragraph_loop ids d ps S chunks) \<and>
     map content (paragraph_loop ids d ps S chunks) = map content chunks @ map trim ps"
proof (induction ps arbitrary: S chunks)
  case Nil
  then show ?case by simp
next
  case (Cons p ps)
  let ?chunks = "chunks @ [new_chunk ids d chunks (trim p) S (S + length p)]"
  from Cons.prems(1) have short: "length p \<le> CHUNK_SIZE" "\<forall>p \<in> set ps. length p \<le> CHUNK_SIZE"
    by auto
  have a: "ranges_disjoint ?chunks"
    using Cons.prems(2,3) by (auto simp: sorted_wrt_append new_chunk_def)
  have b: "\<forall>c \<in> set ?chunks. endIndex c \<le> S + length p"
    using Cons.prems(3) by (auto simp: new_chunk_def)
  from Cons.IH[OF short(2) a b] short(1) show ?case
    by (simp add: new_chunk_def)
qed

lemma subseq_split_loop: "subseq (concat (split_loop piece s)) (piece @ s)"
proof (induction piece s rule: split_loop.induct)
  case (1 piece)
  then show ?case by simp
next
  case (2 piece c cs)
  show ?case
  proof (cases "separator_at (c # cs)")
    case None
    with 2(1) show ?thesis by simp
  next
    case (Some n)
    have "subseq (concat (split_loop [] (drop n (c # cs)))) (drop n (c # cs))"
      using 2(2)[OF Some] by simp
    moreover have "subseq (drop n (c # cs)) (c # cs)"
      by (rule suffix_imp_subseq) (rule suffix_drop)
    ultimately have "subseq (concat (split_loop [] (drop n (c # cs)))) (c # cs)"
      by (rule subseq_order.order_trans)
    then have "subseq (piece @ concat (split_loop [] (drop n (c # cs)))) (piece @ c # cs)"
      by (simp add: subseq_append')
    with Some show ?thesis by simp
  qed
qed

lemma subseq_trimmed_paragraphs: "subseq (concat (map trim (filter P ps))) (concat ps)"
proof (induction ps)
  case Nil
  then show ?case by simp
next
  case (Cons p ps)
  show ?case
  proof (cases "P p")
    case True
    have "subseq (trim p @ concat (map trim (filter P ps))) (p @ concat ps)"
      by (rule list_emb_append_mono[OF subseq_trim Cons.IH])
    with True show ?thesis by simp
  next
    case False
    have "subseq (concat (map trim (filter P ps))) (p @ concat ps)"
      by (rule subseq_drop_many[OF Cons.IH])
    with False show ?thesis by simp
  qed
qed

lemma subseq_paragraphs: "subseq (concat (map trim (paragraphs_of text))) text"
proof -
  have "subseq (concat (map trim (paragraphs_of text))) (concat (split_paragraphs text))"
    unfolding paragraphs_of_def by (rule subseq_trimmed_paragraphs)
  moreover have "subseq (concat (split_paragraphs text)) text"
    using subseq_split_loop[of "[]" "text"] by (simp add: split_paragraphs_def)
  ultimately show ?thesis by (rule subseq_order.order_trans)
qed

text \<open>Two ranges share at most \<^verbatim>\<open>OVERLAP\<close> characters.\<close>

lemma window_push_overlap:
  assumes "overlap_bounded chunks" and "\<forall>c \<in> set chunks. endIndex c \<le> S + ps + OVERLAP"
  shows "overlap_bounded (window_push ids d p S ps chunks)"
  using assms by (auto simp: window_push_def Let_def new_chunk_def sorted_wrt_append)

lemma window_push_end:
  assumes "\<forall>c \<in> set chunks. endIndex c \<le> S + ps + OVERLAP"
  shows "\<forall>c \<in> set (window_push ids d p S ps chunks).
           endIndex c \<le> S + (ps + (CHUNK_SIZE - OVERLAP)) + OVERLAP"
  using assms by (auto simp: window_push_def Let_def new_chunk_def CHUNK_SIZE_def OVERLAP_def)

lemma window_loop_overlap:
  "overlap_bounded chunks \<Longrightarrow> \<forall>c \<in> set chunks. endIndex c \<le> S + ps + OVERLAP \<Longrightarrow>
     overlap_bounded (window_loop ids d p S ps chunks)"
proof (induction ids d p S ps chunks rule: window_loop.induct)
  case (1 ids d p S ps chunks)
  show ?case
  proof (cases "ps < length p")
    case False
    with "1.prems" show ?thesis by (simp add: window_loop.simps)
  next
    case True
    have "overlap_bounded (window_loop ids d p S (ps + (CHUNK_SIZE - OVERLAP))
          (window_push ids d p S ps chunks))"
      by (rule "1.IH"[OF True window_push_overlap[OF "1.prems"] window_push_end[OF "1.prems"(2)]])
    with True show ?thesis by (subst window_loop.simps) simp
  qed
qed

lemma window_loop_end:
  assumes "\<forall>c \<in> set chunks. endIndex c \<le> S + length p"
  shows "\<forall>c \<in> set (window_loop ids d p S ps chunks). endIndex c \<le> S + length p"
proof
  fix c assume "c \<in> set (window_loop ids d p S ps chunks)"
  from window_loop_mem[OF this] assms show "endIndex c \<le> S + length p" by auto
qed

lemma paragraph_loop_overlap:
  "overlap_bounded chunks \<Longrightarrow> \<forall>c \<in> set chunks. endIndex c \<le> S \<Longrightarrow>
     overlap_bounded (paragraph_loop ids d ps S chunks)"
proof (induction ps arbitrary: S chunks)
  case Nil
  then show ?case by simp
next
  case (Cons p ps)
  show ?case
  proof (cases "length p \<le> CHUNK_SIZE")
    case True
    let ?chunks = "chunks @ [new_chunk ids d chunks (trim p) S (S + length p)]"
    have a: "overlap_bounded ?chunks"
      using Cons.prems by (auto simp: sorted_wrt_append new_chunk_def)
    have b: "\<forall>c \<in> set ?chunks. endIndex c \<le> S + length p"
      using Cons.prems(2) by (auto simp: new_chunk_def)
    from Cons.IH[OF a b] True show ?thesis by simp
  next
    case False
    let ?chunks = "window_loop ids d p S 0 chunks"
    have a: "overlap_bounded ?chunks"
      using Cons.prems by (intro window_loop_overlap) auto
    have b: "\<forall>c \<in> set ?chunks. endIndex c \<le> S + length p"
      using Cons.prems(2) by (intro window_loop_end) auto
    from Cons.IH[OF a b] False show ?thesis by simp
  qed
qed

lemma chunkDocument_overlap_bounded: "overlap_bounded (chunkDocument ids text document)"
proof -
  have "overlap_bounded (paragraph_loop ids (doc_id document) (paragraphs_of text) 0 [])"
    by (rule paragraph_loop_overlap) simp_all
  then show ?thesis
    by (simp add: chunkDocument_def Let_def addPageNumbers_def sorted_wrt_map)
qed

section \<open>Running the chunker\<close>

lemma example_chunks:
  "chunkDocument example_ids two_paragraphs (example_document Txt) =
     [\<lparr> chunk_id = example_ids 0, documentId = ''d'', content = ''ab'', startIndex = 0,
         endIndex = 2, page = None, embedding = None \<rparr>,
      \<lparr> chunk_id = example_ids 1, documentId = ''d'', content = ''cd'', startIndex = 2,
         endIndex = 4, page = None, embedding = None \<rparr>]"
  by code_simp

lemma example_paragraphs: "paragraphs_of two_paragraphs = [''ab'', ''cd'']"
  by code_simp

text \<open>A text of 1001 letters is one paragraph, and the window loop runs twice on it.\<close>

lemma split_loop_no_newline: "newline \<notin> set s \<Longrightarrow> split_loop piece s = [piece @ s]"
  by (induction s arbitrary: piece) auto

lemma dropWhile_replicate: "\<not> P a \<Longrightarrow> dropWhile P (replicate n a) = replicate n a"
  by (cases n) simp_all

lemma trim_replicate: "\<not> is_ws a \<Longrightarrow> trim (replicate n a) = replicate n a"
  by (simp add: trim_def dropWhile_replicate)

lemma letters_paragraphs:
  "paragraphs_of (replicate 1001 (CHR ''a'')) = [replicate 1001 (CHR ''a'')]"
  by (simp add: paragraphs_of_def split_paragraphs_def split_loop_no_newline trim_replicate is_ws_def)

lemma letters_windows:
  "window_loop ids d (replicate 1001 (CHR ''a'')) 0 0 [] =
     [new_chunk ids d [] (replicate 1000 (CHR ''a'')) 0 1000,
      new_chunk ids d [new_chunk ids d [] (replicate 1000 (CHR ''a'')) 0 1000]
        (replicate 201 (CHR ''a'')) 800 1001]"
proof -
  let ?p = "replicate 1001 (CHR ''a'')"
  have stop: "window_loop ids d ?p 0 1600 cs = cs" for cs
    by (subst window_loop.simps) simp
  have second: "window_loop ids d ?p 0 800 cs = window_push ids d ?p 0 800 cs" for cs
    by (subst window_loop.simps) (simp add: CHUNK_SIZE_def OVERLAP_def stop)
  have first: "window_loop ids d ?p 0 0 cs = window_push ids d ?p 0 800 (window_push ids d ?p 0 0 cs)" for cs
    by (subst window_loop.simps) (simp add: CHUNK_SIZE_def OVERLAP_def second)
  have push0: "window_push ids d ?p 0 0 [] = [new_chunk ids d [] (replicate 1000 (CHR ''a'')) 0 1000]"
    by (simp add: window_push_def js_slice_def CHUNK_SIZE_def trim_replicate is_ws_def)
  have push1: "window_push ids d ?p 0 800 cs = cs @ [new_chunk ids d cs (replicate 201 (CHR ''a'')) 800 1001]" for cs
    by (simp add: window_push_def js_slice_def CHUNK_SIZE_def trim_replicate is_ws_def)
  show ?thesis by (simp add: first push0 push1)
qed

lemma letters_chunks:
  "chunkDocument example_ids (replicate 1001 (CHR ''a'')) (example_document Txt) =
     [\<lparr> chunk_id = example_ids 0, documentId = ''d'', content = replicate 1000 (CHR ''a''),
         startIndex = 0, endIndex = 1000, page = None, embedding = None \<rparr>,
      \<lparr> chunk_id = example_ids 1, documentId = ''d'', content = replicate 201 (CHR ''a''),
         startIndex = 800, endIndex = 1001, page = None, embedding = None \<rparr>]"
  by (simp add: chunkDocument_def letters_paragraphs letters_windows CHUNK_SIZE_def
      example_document_def new_chunk_def)

section \<open>Chunk ranges (claim C3)\<close>

text \<open>
  Claim C3, as the code has it: for every text the chunks' \<^verbatim>\<open>startIndex\<close> values ascend
  strictly, every range \<open>[startIndex, endIndex)\<close> is not empty, and two ranges share at
  most \<^verbatim>\<open>OVERLAP\<close> characters: a later chunk starts at most \<^verbatim>\<open>OVERLAP\<close> characters before
  the end of an earlier one. When no paragraph is longer than \<^verbatim>\<open>CHUNK_SIZE\<close>, the ranges
  are pairwise non-overlapping and the concatenation of the chunks' contents is a
  subsequence of the text.
\<close>

theorem chunk_ranges_ascending:
  "sorted_wrt (\<lambda>a b. startIndex a < startIndex b) (chunkDocument ids text document) \<and>
   (\<forall>c \<in> set (chunkDocument ids text document). startIndex c < endIndex c) \<and>
   sorted_wrt (\<lambda>a b. endIndex a \<le> startIndex b + OVERLAP) (chunkDocument ids text document) \<and>
   ((\<forall>p \<in> set (paragraphs_of text). length p \<le> CHUNK_SIZE) \<longrightarrow>
      sorted_wrt (\<lambda>a b. endIndex a \<le> startIndex b) (chunkDocument ids text document) \<and>
      subseq (concat (map content (chunkDocument ids text document))) text)"
proof (intro conjI impI)
  show "starts_ascend (chunkDocument ids text document)"
    by (rule chunkDocument_starts_ascend)
  show "\<forall>c \<in> set (chunkDocument ids text document). startIndex c < endIndex c"
    using chunkDocument_range by blast
  show "overlap_bounded (chunkDocument ids text document)"
    by (rule chunkDocument_overlap_bounded)
next
  assume short: "\<forall>p \<in> set (paragraphs_of text). length p \<le> CHUNK_SIZE"
  let ?loop = "paragraph_loop ids (doc_id document) (paragraphs_of text) 0 []"
  have loop: "ranges_disjoint ?loop \<and> map content ?loop = map trim (paragraphs_of text)"
    using paragraph_loop_short[OF short, of "[]" 0 ids "doc_id document"] by simp
  then show "ranges_disjoint (chunkDocument ids text document)"
    by (simp add: chunkDocument_def Let_def addPageNumbers_sorted)
  from loop show "subseq (concat (map content (chunkDocument ids text document))) text"
    by (simp add: chunkDocument_fields subseq_paragraphs)
qed

theorem chunk_ranges_ascending_witness:
  "paragraphs_of two_paragraphs = [''ab'', ''cd''] \<and>
   length ''ab'' \<le> CHUNK_SIZE \<and> length ''cd'' \<le> CHUNK_SIZE \<and>
   map (\<lambda>c. (startIndex c, endIndex c)) (chunkDocument example_ids two_paragraphs (example_document Txt))
     = [(0, 2), (2, 4)] \<and>
   sorted_wrt (\<lambda>a b. startIndex a < startIndex b)
     (chunkDocument example_ids two_paragraphs (example_document Txt)) \<and>
   sorted_wrt (\<lambda>a b. endIndex a \<le> startIndex b + OVERLAP)
     (chunkDocument example_ids two_paragraphs (example_document Txt)) \<and>
   sorted_wrt (\<lambda>a b. endIndex a \<le> startIndex b)
     (chunkDocument example_ids two_paragraphs (example_document Txt)) \<and>
   subseq (concat (map content (chunkDocument example_ids two_paragraphs (example_document Txt))))
     two_paragraphs"
proof -
  have short: "\<forall>p \<in> set (paragraphs_of two_paragraphs). length p \<le> CHUNK_SIZE"
    by (simp add: example_paragraphs CHUNK_SIZE_def)
  have ranges: "map (\<lambda>c. (startIndex c, endIndex c))
      (chunkDocument example_ids two_paragraphs (example_document Txt)) = [(0, 2), (2, 4)]"
    by (simp add: example_chunks)
  from chunk_ranges_ascending[of example_ids two_paragraphs "example_document Txt"] short ranges
  show ?thesis
    by (simp add: example_paragraphs CHUNK_SIZE_def)
qed

text \<open>The claim as stated fails on a paragraph of 1001 letters: the two windows are
  \<open>[0, 1000)\<close> and \<open>[800, 1001)\<close>, and together they hold 1201 letters.\<close>

theorem chunk_ranges_overlap_counterexample:
  "map (\<lambda>c. (startIndex c, endIndex c))
      (chunkDocument example_ids (replicate 1001 (CHR ''a'')) (example_document Txt))
     = [(0, 1000), (800, 1001)] \<and>
   (800::nat) < 1000 \<and>
   length (concat (map content
      (chunkDocument example_ids (replicate 1001 (CHR ''a'')) (example_document Txt)))) = 1201 \<and>
   \<not> subseq (concat (map content
      (chunkDocument example_ids (replicate 1001 (CHR ''a'')) (example_document Txt))))
      (replicate 1001 (CHR ''a''))"
  by (simp add: letters_chunks)

section \<open>Page numbers (claim C4)\<close>

text \<open>
  Claim C4 at the text of a two-page PDF: the second marker stands at index 18 of the text,
  and the chunk that begins with it has \<^verbatim>\<open>startIndex\<close> 16, because the running
  \<^verbatim>\<open>startIndex\<close> adds the paragraphs' lengths and not the separators between them. So the
  chunk of page 2 is given page 1. In the longer text the chunk \<open>Y\<close>, which stands at index
  60 behind the second marker at index 42, has \<^verbatim>\<open>startIndex\<close> 40 and is given page 1 too.
\<close>

theorem second_page_chunk_gets_page_one:
  "map (\<lambda>c. (content c, startIndex c, page c))
      (chunkDocument example_ids two_page_text (example_document Pdf))
     = [(''--- Page 1 ---'' @ [newline] @ ''A'', 0, Some 1),
        (''--- Page 2 ---'' @ [newline] @ ''B'', 16, Some 1)] \<and>
   page_starts two_page_text = [(1, 0), (2, 18)] \<and>
   page_starts long_page_text = [(1, 0), (2, 42)] \<and>
   indexOf long_page_text ([newline, newline] @ ''Y'') = 58 \<and>
   (let c = last (chunkDocument example_ids long_page_text (example_document Pdf))
    in (content c, startIndex c, page c)) = (''Y'', 40, Some 1)"
  by code_simp

section \<open>Chunk sizes (claim C5)\<close>

text \<open>
  Claim C5: with \<^verbatim>\<open>CHUNK_SIZE = 1000\<close> and \<^verbatim>\<open>OVERLAP = 200\<close>, so that the overlap is
  below the size, the content of every chunk has at most \<^verbatim>\<open>CHUNK_SIZE\<close> characters.
\<close>

theorem chunk_content_at_most_CHUNK_SIZE:
  assumes "c \<in> set (chunkDocument ids text document)"
  shows "OVERLAP < CHUNK_SIZE \<and> length (content c) \<le> CHUNK_SIZE"
proof -
  from assms have "content c \<in> set (map content (chunkDocument ids text document))" by simp
  then obtain c' where c': "c' \<in> set (paragraph_loop ids (doc_id document) (paragraphs_of text) 0 [])"
      "content c' = content c"
    unfolding chunkDocument_fields by auto
  from paragraph_loop_content_bound[OF c'(1)] c'(2) show ?thesis
    by (simp add: CHUNK_SIZE_def OVERLAP_def)
qed

theorem chunk_content_at_most_CHUNK_SIZE_witness:
  "\<lparr> chunk_id = example_ids 1, documentId = ''d'', content = ''cd'', startIndex = 2,
      endIndex = 4, page = None, embedding = None \<rparr>
     \<in> set (chunkDocument example_ids two_paragraphs (example_document Txt)) \<and>
   OVERLAP < CHUNK_SIZE \<and> length ''cd'' \<le> CHUNK_SIZE"
proof -
  have m: "\<lparr> chunk_id = example_ids 1, documentId = ''d'', content = ''cd'', startIndex = 2,
      endIndex = 4, page = None, embedding = None \<rparr>
     \<in> set (chunkDocument example_ids two_paragraphs (example_document Txt))"
    by (simp add: example_chunks)
  from chunk_content_at_most_CHUNK_SIZE[OF m] m show ?thesis by simp
qed

section \<open>Facts about the embedding workers\<close>

lemma same_but_embedding_refl: "same_but_embedding c c"
  by (simp add: same_but_embedding_def)

lemma same_but_embedding_content: "same_but_embedding a b \<Longrightarrow> content a = content b"
  unfolding same_but_embedding_def
  by (metis DocumentChunk.select_convs(3) DocumentChunk.surjective DocumentChunk.update_convs(7))

lemma same_but_embedding_update:
  "same_but_embedding a b \<Longrightarrow> same_but_embedding (a \<lparr> embedding := e \<rparr>) b"
  by (simp add: same_but_embedding_def)

text \<open>The start: the first workers take the first chunks, in order.\<close>

lemma worker_loop_funpow:
  "m \<le> n \<Longrightarrow>
   (worker_loop ^^ m) \<lparr> ps_chunks = cs, ps_queue = [0 ..< n], ps_waiting = [], ps_completed = 0, ps_events = [] \<rparr>
     = \<lparr> ps_chunks = cs, ps_queue = [m ..< n], ps_waiting = [0 ..< m], ps_completed = 0, ps_events = [] \<rparr>"
proof (induction m)
  case 0
  then show ?case by simp
next
  case (Suc m)
  then have "m < n" by simp
  then have q: "[m ..< n] = m # [Suc m ..< n]" by (rule upt_conv_Cons)
  from Suc show ?case by (simp add: worker_loop_def q)
qed

lemma start_workers_eq:
  "start_workers chunks =
     \<lparr> ps_chunks = chunks, ps_queue = [min CONCURRENCY_LIMIT (length chunks) ..< length chunks],
       ps_waiting = [0 ..< min CONCURRENCY_LIMIT (length chunks)], ps_completed = 0, ps_events = [] \<rparr>"
  unfolding start_workers_def by (rule worker_loop_funpow) simp

lemma start_workers_inv:
  assumes "chunks \<noteq> []"
  shows "pool_inv emb chunks (start_workers chunks)"
proof -
  have "0 < min CONCURRENCY_LIMIT (length chunks)"
    using assms by (simp add: CONCURRENCY_LIMIT_def)
  then show ?thesis
    unfolding start_workers_eq pool_inv_def
    by (auto simp: list_all2_same same_but_embedding_refl)
qed

lemma start_workers_remaining: "remaining (start_workers chunks) = length chunks"
  unfolding start_workers_eq remaining_def by auto

lemma worker_loop_inv:
  assumes "list_all2 same_but_embedding (ps_chunks st) chunks"
    and "\<forall>i \<in> set (ps_queue st) \<union> set (ps_waiting st). i < length chunks"
    and "\<forall>i < length chunks. i \<in> set (ps_queue st) \<or> i \<in> set (ps_waiting st)
          \<or> embedded_by emb (ps_chunks st ! i)"
  shows "pool_inv emb chunks (worker_loop st)"
  using assms unfolding pool_inv_def worker_loop_def
  by (cases "ps_queue st") auto

lemma worker_loop_remaining: "remaining (worker_loop st) = remaining st"
  by (cases "ps_queue st") (simp_all add: worker_loop_def remaining_def)

lemma set_remove_nth: "k < length w \<Longrightarrow> set w \<subseteq> insert (w ! k) (set (take k w @ drop (Suc k) w))"
proof -
  assume k: "k < length w"
  have "w = take k w @ (w ! k) # drop (Suc k) w"
    using k by (simp add: id_take_nth_drop)
  then have "set w = set (take k w @ (w ! k) # drop (Suc k) w)" by simp
  then show ?thesis by auto
qed

lemma set_remove_nth_subset: "set (take k w @ drop (Suc k) w) \<subseteq> set w"
  by (auto dest: in_set_takeD in_set_dropD)

lemma settle_inv:
  assumes inv: "pool_inv emb chunks st" and k: "k < length (ps_waiting st)"
    and s: "settle emb cb n k st = Inr st'"
  shows "pool_inv emb chunks st'"
proof -
  define i where "i = ps_waiting st ! k"
  define others where "others = take k (ps_waiting st) @ drop (Suc k) (ps_waiting st)"
  from inv k have i: "i < length chunks"
    by (auto simp: pool_inv_def i_def)
  from inv have len: "length (ps_chunks st) = length chunks"
    by (auto simp: pool_inv_def dest: list_all2_lengthD)
  from inv i have same: "same_but_embedding (ps_chunks st ! i) (chunks ! i)"
    by (auto simp: pool_inv_def list_all2_conv_all_nth)
  from s obtain v where v: "emb (content (ps_chunks st ! i)) = Inr v"
    by (cases "emb (content (ps_chunks st ! i))") (auto simp: settle_def Let_def i_def)
  define mid where "mid = st \<lparr> ps_chunks := (ps_chunks st)[i := (ps_chunks st ! i) \<lparr> embedding := Some v \<rparr>],
                        ps_waiting := others,
                        ps_completed := Suc (ps_completed st),
                        ps_events := ps_events st @
                          chunk_progress cb (Suc (ps_completed st)) n \<rparr>"
  from s v have st': "st' = worker_loop mid"
    by (simp add: settle_def Let_def i_def others_def mid_def)
  have a: "list_all2 same_but_embedding (ps_chunks mid) chunks"
  proof -
    have "list_all2 same_but_embedding (ps_chunks st) chunks"
      using inv by (simp add: pool_inv_def)
    then have "list_all2 same_but_embedding
        ((ps_chunks st)[i := (ps_chunks st ! i) \<lparr> embedding := Some v \<rparr>]) (chunks[i := chunks ! i])"
      by (rule list_all2_update_cong) (rule same_but_embedding_update[OF same])
    then show ?thesis by (simp add: mid_def)
  qed
  have b: "\<forall>j \<in> set (ps_queue mid) \<union> set (ps_waiting mid). j < length chunks"
    using inv set_remove_nth_subset[of k "ps_waiting st"]
    by (auto simp: pool_inv_def mid_def others_def)
  have c: "j \<in> set (ps_queue mid) \<or> j \<in> set (ps_waiting mid) \<or> embedded_by emb (ps_chunks mid ! j)"
    if j: "j < length chunks" for j
  proof (cases "j = i")
    case True
    have "content (ps_chunks st ! i) = content (chunks ! i)"
      using same by (rule same_but_embedding_content)
    then have "embedded_by emb (ps_chunks mid ! j)"
      using True i len v by (simp add: mid_def embedded_by_def)
    then show ?thesis by simp
  next
    case False
    from inv j have "j \<in> set (ps_queue st) \<or> j \<in> set (ps_waiting st) \<or> embedded_by emb (ps_chunks st ! j)"
      by (simp add: pool_inv_def)
    moreover have "j \<in> set others" if "j \<in> set (ps_waiting st)"
      using that False set_remove_nth[OF k] by (auto simp: i_def others_def)
    ultimately show ?thesis
      using False by (auto simp: mid_def)
  qed
  show ?thesis
    unfolding st' using a b c by (intro worker_loop_inv) auto
qed

lemma settle_remaining:
  assumes k: "k < length (ps_waiting st)" and s: "settle emb cb n k st = Inr st'"
  shows "Suc (remaining st') = remaining st"
proof -
  from s obtain mid where st': "st' = worker_loop mid"
    and mid: "ps_queue mid = ps_queue st"
      "ps_waiting mid = take k (ps_waiting st) @ drop (Suc k) (ps_waiting st)"
    by (auto simp: settle_def Let_def split: sum.splits)
  have "Suc (length (take k (ps_waiting st) @ drop (Suc k) (ps_waiting st))) = length (ps_waiting st)"
    using k by auto
  then have "Suc (remaining mid) = remaining st"
    by (simp add: remaining_def mid)
  then show ?thesis by (simp add: st' worker_loop_remaining)
qed

text \<open>Whatever the schedule, a stage that has finished has embedded every chunk.\<close>

lemma run_pool_finished:
  "pool_inv emb chunks st \<Longrightarrow> run_pool emb cb n schedule st = Finished pst \<Longrightarrow>
     pool_inv emb chunks pst \<and> ps_waiting pst = []"
proof (induction schedule arbitrary: st)
  case Nil
  then show ?case by (auto split: if_splits)
next
  case (Cons k schedule)
  show ?case
  proof (cases "ps_waiting st = []")
    case True
    with Cons.prems show ?thesis by simp
  next
    case False
    then have k: "k mod length (ps_waiting st) < length (ps_waiting st)" by simp
    from Cons.prems(2) False obtain st' where
      s: "settle emb cb n (k mod length (ps_waiting st)) st = Inr st'" and
      r: "run_pool emb cb n schedule st' = Finished pst"
      by (auto split: sum.splits)
    from settle_inv[OF Cons.prems(1) k s] have "pool_inv emb chunks st'" .
    from Cons.IH[OF this r] show ?thesis .
  qed
qed

lemma finished_all_embedded:
  assumes "pool_inv emb chunks pst" and "ps_waiting pst = []"
  shows "list_all2 same_but_embedding (ps_chunks pst) chunks \<and>
         (\<forall>c \<in> set (ps_chunks pst). embedded_by emb c)"
proof -
  from assms have q: "ps_queue pst = []" by (auto simp: pool_inv_def)
  from assms(1) have len: "length (ps_chunks pst) = length chunks"
    by (auto simp: pool_inv_def dest: list_all2_lengthD)
  have "embedded_by emb c" if "c \<in> set (ps_chunks pst)" for c
  proof -
    from that obtain i where "i < length (ps_chunks pst)" "c = ps_chunks pst ! i"
      by (auto simp: in_set_conv_nth)
    with assms q len show ?thesis by (auto simp: pool_inv_def)
  qed
  with assms(1) show ?thesis by (simp add: pool_inv_def)
qed

text \<open>A schedule as long as the list of chunks is long enough, when no embedding fails.\<close>

lemma settle_succeeds:
  assumes inv: "pool_inv emb chunks st" and k: "k < length (ps_waiting st)"
    and ok: "\<forall>c \<in> set chunks. \<exists>v. emb (content c) = Inr v"
  shows "\<exists>st'. settle emb cb n k st = Inr st'"
proof -
  define i where "i = ps_waiting st ! k"
  from inv k have i: "i < length chunks"
    by (auto simp: pool_inv_def i_def)
  from inv i have "same_but_embedding (ps_chunks st ! i) (chunks ! i)"
    by (auto simp: pool_inv_def list_all2_conv_all_nth)
  then have "content (ps_chunks st ! i) = content (chunks ! i)"
    by (rule same_but_embedding_content)
  with ok i obtain v where "emb (content (ps_chunks st ! i)) = Inr v"
    by (metis nth_mem)
  then have "settle emb cb n k st \<noteq> Inl e" for e
    unfolding settle_def Let_def i_def by simp
  then show ?thesis by (cases "settle emb cb n k st") auto
qed

lemma run_pool_finishes:
  "pool_inv emb chunks st \<Longrightarrow> \<forall>c \<in> set chunks. \<exists>v. emb (content c) = Inr v \<Longrightarrow>
   remaining st \<le> length schedule \<Longrightarrow> \<exists>pst. run_pool emb cb n schedule st = Finished pst"
proof (induction schedule arbitrary: st)
  case Nil
  then show ?case by (simp add: remaining_def)
next
  case (Cons k schedule)
  show ?case
  proof (cases "ps_waiting st = []")
    case True
    then show ?thesis by simp
  next
    case False
    then have k: "k mod length (ps_waiting st) < length (ps_waiting st)" by simp
    from settle_succeeds[OF Cons.prems(1) k Cons.prems(2)] obtain st' where
      s: "settle emb cb n (k mod length (ps_waiting st)) st = Inr st'" by blast
    have inv': "pool_inv emb chunks st'" by (rule settle_inv[OF Cons.prems(1) k s])
    have "remaining st' \<le> length schedule"
      using settle_remaining[OF k s] Cons.prems(3) by simp
    from Cons.IH[OF inv' Cons.prems(2) this] False s show ?thesis by simp
  qed
qed


lemma run_pool_rejected:
  "pool_inv emb chunks st \<Longrightarrow> run_pool emb cb n schedule st = Rejected e pst \<Longrightarrow>
     \<exists>c \<in> set chunks. emb (content c) = Inl e"
proof (induction schedule arbitrary: st)
  case Nil
  then show ?case by (auto split: if_splits)
next
  case (Cons k schedule)
  from Cons.prems(2) have w: "ps_waiting st \<noteq> []" by (auto split: if_splits)
  then have k: "k mod length (ps_waiting st) < length (ps_waiting st)" by simp
  show ?case
  proof (cases "settle emb cb n (k mod length (ps_waiting st)) st")
    case (Inl e')
    with Cons.prems(2) w have e: "e' = e" by simp
    define i where "i = ps_waiting st ! (k mod length (ps_waiting st))"
    from Cons.prems(1) k have i: "i < length chunks"
      by (auto simp: pool_inv_def i_def)
    from Cons.prems(1) i have "same_but_embedding (ps_chunks st ! i) (chunks ! i)"
      by (auto simp: pool_inv_def list_all2_conv_all_nth)
    then have c: "content (ps_chunks st ! i) = content (chunks ! i)"
      by (rule same_but_embedding_content)
    from Inl have "emb (content (ps_chunks st ! i)) = Inl e'"
      by (auto simp: settle_def Let_def i_def split: sum.splits)
    with c e i show ?thesis by (metis nth_mem)
  next
    case (Inr st')
    with Cons.prems(2) w have r: "run_pool emb cb n schedule st' = Rejected e pst" by simp
    from settle_inv[OF Cons.prems(1) k Inr] have "pool_inv emb chunks st'" .
    from Cons.IH[OF this r] show ?thesis .
  qed
qed

lemma run_pool_not_pending:
  "remaining st \<le> length schedule \<Longrightarrow> run_pool emb cb n schedule st \<noteq> Pending pst"
proof (induction schedule arbitrary: st)
  case Nil
  then show ?case by (simp add: remaining_def)
next
  case (Cons k schedule)
  show ?case
  proof (cases "ps_waiting st = []")
    case True
    then show ?thesis by simp
  next
    case False
    then have k: "k mod length (ps_waiting st) < length (ps_waiting st)" by simp
    show ?thesis
    proof (cases "settle emb cb n (k mod length (ps_waiting st)) st")
      case (Inl e)
      with False show ?thesis by simp
    next
      case (Inr st')
      have "remaining st' \<le> length schedule"
        using settle_remaining[OF k Inr] Cons.prems by simp
      from Cons.IH[OF this] False Inr show ?thesis by simp
    qed
  qed
qed

lemma embedding_stage_never_finishes_on_failure:
  assumes "c \<in> set chunks" and "emb (content c) = Inl e0"
  shows "embedding_stage emb cb schedule chunks \<noteq> Finished pst"
proof
  assume fin: "embedding_stage emb cb schedule chunks = Finished pst"
  from assms(1) have ne: "chunks \<noteq> []" by auto
  from fin have "pool_inv emb chunks pst \<and> ps_waiting pst = []"
    unfolding embedding_stage_def
    by (rule run_pool_finished[OF start_workers_inv[OF ne]])
  then have all: "list_all2 same_but_embedding (ps_chunks pst) chunks"
    "\<forall>c \<in> set (ps_chunks pst). embedded_by emb c"
    using finished_all_embedded by blast+
  from assms(1) obtain i where i: "i < length chunks" "c = chunks ! i"
    by (auto simp: in_set_conv_nth)
  from all(1) i have "same_but_embedding (ps_chunks pst ! i) (chunks ! i)" "i < length (ps_chunks pst)"
    by (auto simp: list_all2_conv_all_nth)
  then have "content (ps_chunks pst ! i) = content c" "ps_chunks pst ! i \<in> set (ps_chunks pst)"
    using i by (auto dest: same_but_embedding_content)
  with all(2) have "\<exists>v. emb (content c) = Inr v"
    by (metis embedded_by_def)
  with assms(2) show False by simp
qed

lemma embedding_stage_rejected:
  assumes "chunks \<noteq> []" and "embedding_stage emb cb schedule chunks = Rejected e pst"
  shows "\<exists>c \<in> set chunks. emb (content c) = Inl e"
  using assms(2) unfolding embedding_stage_def
  by (rule run_pool_rejected[OF start_workers_inv[OF assms(1)]])

lemma embedding_stage_not_pending:
  assumes "length chunks \<le> length schedule"
  shows "embedding_stage emb cb schedule chunks \<noteq> Pending pst"
  unfolding embedding_stage_def
  by (rule run_pool_not_pending) (simp add: start_workers_remaining assms)

text \<open>The three ways \<^verbatim>\<open>processDocument\<close> goes on after the document processor returned a
  document with chunks.\<close>

lemma processDocument_with_chunks:
  assumes "documentProcessor_processDocument cb ids now extractText file = (evs, Inr document)"
    and "doc_chunks document = Some chunks" and "chunks \<noteq> []"
  shows "processDocument cb ids now extractText emb schedule st file =
     (let ev1 = updateProgress cb Stage_uploading (Num 0) ''Starting document processing...'' @ evs
                  @ updateProgress cb Stage_embedding (Num 70) ''Generating embeddings...''
      in case embedding_stage emb cb schedule chunks of
           Pending pst \<Rightarrow> None
         | Rejected e pst \<Rightarrow> Some (ingestion_failed cb (ev1 @ ps_events pst) st e)
         | Finished pst \<Rightarrow>
             (case saveDocument st (document \<lparr> doc_chunks := Some (ps_chunks pst) \<rparr>) of
                Inl e \<Rightarrow> Some (ingestion_failed cb
                          (ev1 @ ps_events pst
                             @ updateProgress cb Stage_indexing (Num 95) ''Saving to local index...'') st e)
              | Inr st' \<Rightarrow>
                  Some (ev1 @ ps_events pst
                          @ updateProgress cb Stage_indexing (Num 95) ''Saving to local index...''
                          @ updateProgress cb Stage_complete (Num 100) ''Document ready for analysis!'',
                        st', Inr (document \<lparr> doc_chunks := Some (ps_chunks pst) \<rparr>))))"
  using assms by (simp add: processDocument_def Let_def split: pool_outcome.splits sum.splits)

lemma processDocument_result_embedded:
  assumes "processDocument cb ids now extractText emb schedule st file = Some (events, st', Inr d)"
    and "doc_chunks d = Some cs"
  shows "\<forall>c \<in> set cs. embedding c \<noteq> None"
proof -
  obtain evs r where dp: "documentProcessor_processDocument cb ids now extractText file = (evs, r)"
    by (cases "documentProcessor_processDocument cb ids now extractText file")
  from assms(1) dp obtain document where r: "r = Inr document"
    by (cases r) (auto simp: processDocument_def Let_def ingestion_failed_def)
  show ?thesis
  proof (cases "doc_chunks document")
    case None
    with assms dp r show ?thesis
      by (auto simp: processDocument_def Let_def ingestion_failed_def split: sum.splits)
  next
    case (Some chunks)
    show ?thesis
    proof (cases "chunks = []")
      case True
      with assms dp r Some show ?thesis
        by (auto simp: processDocument_def Let_def ingestion_failed_def split: sum.splits)
    next
      case False
      note pd = processDocument_with_chunks[OF dp[unfolded r] Some False]
      obtain pst where fin: "embedding_stage emb cb schedule chunks = Finished pst"
        and d: "d = document \<lparr> doc_chunks := Some (ps_chunks pst) \<rparr>"
      proof (cases "embedding_stage emb cb schedule chunks")
        case (Finished pst)
        with assms(1) have "d = document \<lparr> doc_chunks := Some (ps_chunks pst) \<rparr>"
          by (cases "saveDocument st (document \<lparr> doc_chunks := Some (ps_chunks pst) \<rparr>)")
             (simp_all add: pd ingestion_failed_def)
        with Finished that show ?thesis by blast
      next
        case (Rejected e pst)
        with assms(1) show ?thesis by (simp add: pd ingestion_failed_def)
      next
        case (Pending pst)
        with assms(1) show ?thesis by (simp add: pd)
      qed
      from fin have "pool_inv emb chunks pst \<and> ps_waiting pst = []"
        unfolding embedding_stage_def
        by (rule run_pool_finished[OF start_workers_inv[OF False]])
      then have "\<forall>c \<in> set (ps_chunks pst). embedded_by emb c"
        using finished_all_embedded by blast
      with d assms(2) show ?thesis by (auto simp: embedded_by_def)
    qed
  qed
qed

section \<open>The embedding workers (claim C6)\<close>

text \<open>
  Claim C6: for a list of chunks that is not empty, the embedding stage starts
  \<open>min CONCURRENCY_LIMIT (length chunks)\<close> workers, which take the first chunks of the queue
  in order; under every schedule of the promises, when the stage has finished every chunk
  holds the embedding the embedder returned for its content, and the chunks are otherwise
  the document's; when the embedder fails on no chunk, every schedule at least as long as
  the list lets the stage finish; and a document that \<^verbatim>\<open>processDocument\<close> returns has an
  embedding in every chunk.
\<close>

theorem embedding_stage_embeds_all:
  assumes "chunks \<noteq> []"
  shows "ps_waiting (start_workers chunks) = [0 ..< min CONCURRENCY_LIMIT (length chunks)] \<and>
         ps_queue (start_workers chunks) = [min CONCURRENCY_LIMIT (length chunks) ..< length chunks] \<and>
         (\<forall>schedule pst. embedding_stage generateEmbedding cb schedule chunks = Finished pst \<longrightarrow>
            list_all2 same_but_embedding (ps_chunks pst) chunks \<and>
            (\<forall>c \<in> set (ps_chunks pst). embedding c \<noteq> None \<and> embedded_by generateEmbedding c)) \<and>
         ((\<forall>c \<in> set chunks. \<exists>v. generateEmbedding (content c) = Inr v) \<longrightarrow>
            (\<forall>schedule. length chunks \<le> length schedule \<longrightarrow>
               (\<exists>pst. embedding_stage generateEmbedding cb schedule chunks = Finished pst))) \<and>
         (\<forall>ids now extractText schedule st file events st' document cs.
            processDocument cb ids now extractText generateEmbedding schedule st file
              = Some (events, st', Inr document) \<and> doc_chunks document = Some cs
            \<longrightarrow> (\<forall>c \<in> set cs. embedding c \<noteq> None))"
proof (intro conjI allI impI)
  show "ps_waiting (start_workers chunks) = [0 ..< min CONCURRENCY_LIMIT (length chunks)]"
    by (simp add: start_workers_eq)
  show "ps_queue (start_workers chunks) = [min CONCURRENCY_LIMIT (length chunks) ..< length chunks]"
    by (simp add: start_workers_eq)
next
  fix schedule pst
  assume "embedding_stage generateEmbedding cb schedule chunks = Finished pst"
  then have "pool_inv generateEmbedding chunks pst \<and> ps_waiting pst = []"
    unfolding embedding_stage_def
    by (rule run_pool_finished[OF start_workers_inv[OF assms]])
  then have *: "list_all2 same_but_embedding (ps_chunks pst) chunks \<and>
         (\<forall>c \<in> set (ps_chunks pst). embedded_by generateEmbedding c)"
    using finished_all_embedded by blast
  then show "list_all2 same_but_embedding (ps_chunks pst) chunks" by simp
  from * show "\<forall>c \<in> set (ps_chunks pst). embedding c \<noteq> None \<and> embedded_by generateEmbedding c"
    by (auto simp: embedded_by_def)
next
  fix schedule :: "nat list"
  assume ok: "\<forall>c \<in> set chunks. \<exists>v. generateEmbedding (content c) = Inr v"
    and long: "length chunks \<le> length schedule"
  show "\<exists>pst. embedding_stage generateEmbedding cb schedule chunks = Finished pst"
    unfolding embedding_stage_def
    by (rule run_pool_finishes[OF start_workers_inv[OF assms] ok])
       (simp add: start_workers_remaining long)
next
  fix ids now extractText schedule st upload events st' document cs
  assume "processDocument cb ids now extractText generateEmbedding schedule st upload
              = Some (events, st', Inr document) \<and> doc_chunks document = Some cs"
  then show "\<forall>c \<in> set cs. embedding c \<noteq> None"
    using processDocument_result_embedded by blast
qed

text \<open>Three chunks under the limit of five: three workers, and all three chunks embedded
  in the order third, first, second.\<close>

lemma three_chunks_eq:
  "three_chunks =
     [\<lparr> chunk_id = ''c'', documentId = ''d'', content = ''ab'', startIndex = 0, endIndex = 2,
         page = None, embedding = None \<rparr>,
      \<lparr> chunk_id = ''ci'', documentId = ''d'', content = ''cd'', startIndex = 2, endIndex = 4,
         page = None, embedding = None \<rparr>,
      \<lparr> chunk_id = ''cii'', documentId = ''d'', content = ''ef'', startIndex = 4, endIndex = 6,
         page = None, embedding = None \<rparr>]"
  by code_simp

theorem embedding_stage_embeds_all_witness:
  "three_chunks \<noteq> [] \<and> length three_chunks = 3 \<and> CONCURRENCY_LIMIT = 5 \<and>
   ps_waiting (start_workers three_chunks) = [0, 1, 2] \<and>
   ps_queue (start_workers three_chunks) = [] \<and>
   (\<exists>pst. embedding_stage example_embedder False [2, 0, 0] three_chunks = Finished pst \<and>
      map embedding (ps_chunks pst) =
        [Some [Num 1, Num 0], Some [Num 1, Num 0], Some [Num 1, Num 0]])"
proof -
  have ne: "three_chunks \<noteq> []" and len: "length three_chunks = 3"
    by (simp_all add: three_chunks_eq)
  note t = embedding_stage_embeds_all[OF ne, of example_embedder False]
  have up: "[0 ..< 3] = [0, 1, 2]" by (simp add: upt_rec)
  from t have start: "ps_waiting (start_workers three_chunks) = [0, 1, 2]"
      "ps_queue (start_workers three_chunks) = []"
    by (simp_all add: len CONCURRENCY_LIMIT_def up)
  have ok: "\<forall>c \<in> set three_chunks. \<exists>v. example_embedder (content c) = Inr v"
    by (simp add: example_embedder_def)
  from t ok len obtain pst where
    fin: "embedding_stage example_embedder False [2, 0, 0] three_chunks = Finished pst"
    by force
  from t fin have all: "list_all2 same_but_embedding (ps_chunks pst) three_chunks"
      "\<forall>c \<in> set (ps_chunks pst). embedded_by example_embedder c"
    by blast+
  from all(1) len have l: "length (ps_chunks pst) = 3"
    by (auto dest: list_all2_lengthD)
  from all(2) have "\<forall>c \<in> set (ps_chunks pst). embedding c = Some [Num 1, Num 0]"
    by (auto simp: embedded_by_def example_embedder_def)
  then have "map embedding (ps_chunks pst) = replicate (length (ps_chunks pst)) (Some [Num 1, Num 0])"
    by (simp add: map_replicate_const[symmetric] cong: map_cong)
  then have "map embedding (ps_chunks pst) =
        [Some [Num 1, Num 0], Some [Num 1, Num 0], Some [Num 1, Num 0]]"
    by (simp add: l numeral_3_eq_3)
  with ne len start fin show ?thesis
    by (auto simp: CONCURRENCY_LIMIT_def)
qed

section \<open>A failing embedding (claim C7)\<close>

text \<open>
  Claim C7: when the document processor has returned a document and the embedder fails on
  the content of one of its chunks, then under every schedule a \<^verbatim>\<open>processDocument\<close> that
  returns throws the error of a chunk whose embedding failed, and the storage is the one
  it started with: \<^verbatim>\<open>saveDocument\<close> was not reached. When a progress callback is
  registered, the last event it receives is the \<^verbatim>\<open>error\<close> event, with progress 0 and the
  message \<^verbatim>\<open>Failed to process document:\<close> followed by that error's message; with no
  callback registered there is nobody to receive it. Under every schedule at least as long
  as the list of chunks \<^verbatim>\<open>processDocument\<close> does return.
\<close>

theorem embedding_failure_aborts_ingestion:
  assumes "documentProcessor_processDocument cb ids now extractText file = (evs, Inr document)"
    and "doc_chunks document = Some chunks"
    and "c \<in> set chunks" and "generateEmbedding (content c) = Inl e0"
  shows "(\<forall>schedule events st' result.
            processDocument cb ids now extractText generateEmbedding schedule st file
              = Some (events, st', result) \<longrightarrow>
            (\<exists>e before. result = Inl e \<and> st' = st \<and>
               (\<exists>c' \<in> set chunks. generateEmbedding (content c') = Inl e) \<and>
               events = before @
                 (if cb
                  then [\<lparr> stage = Stage_error, progress = Num 0,
                          progress_message = ''Failed to process document: '' @ failure_text e \<rparr>]
                  else []))) \<and>
         (\<forall>schedule. length chunks \<le> length schedule \<longrightarrow>
            processDocument cb ids now extractText generateEmbedding schedule st file \<noteq> None)"
proof (intro conjI allI impI)
  from assms(3) have ne: "chunks \<noteq> []" by auto
  note pd = processDocument_with_chunks[OF assms(1,2) ne]
  have never: "embedding_stage generateEmbedding cb schedule chunks \<noteq> Finished pst" for schedule pst
    using assms(3,4) by (rule embedding_stage_never_finishes_on_failure)
  {
    fix schedule events st' result
    assume run: "processDocument cb ids now extractText generateEmbedding schedule st file
              = Some (events, st', result)"
    show "\<exists>e before. result = Inl e \<and> st' = st \<and>
               (\<exists>c' \<in> set chunks. generateEmbedding (content c') = Inl e) \<and>
               events = before @
                 (if cb
                  then [\<lparr> stage = Stage_error, progress = Num 0,
                          progress_message = ''Failed to process document: '' @ failure_text e \<rparr>]
                  else [])"
    proof (cases "embedding_stage generateEmbedding cb schedule chunks")
      case (Finished pst)
      with never show ?thesis by blast
    next
      case (Pending pst)
      with run show ?thesis by (simp add: pd)
    next
      case (Rejected e pst)
      from embedding_stage_rejected[OF ne Rejected]
      have mem: "\<exists>c' \<in> set chunks. generateEmbedding (content c') = Inl e" .
      from run Rejected have r: "result = Inl e" "st' = st"
        "events = (updateProgress cb Stage_uploading (Num 0) ''Starting document processing...'' @ evs
                  @ updateProgress cb Stage_embedding (Num 70) ''Generating embeddings...''
                  @ ps_events pst)
                  @ updateProgress cb Stage_error (Num 0)
                                   (''Failed to process document: '' @ failure_text e)"
        by (simp_all add: pd ingestion_failed_def)
      have up: "updateProgress cb Stage_error (Num 0)
                       (''Failed to process document: '' @ failure_text e) =
            (if cb
             then [\<lparr> stage = Stage_error, progress = Num 0,
                     progress_message = ''Failed to process document: '' @ failure_text e \<rparr>]
             else [])"
        by (simp add: updateProgress_def)
      from r(3) have "events =
           (updateProgress cb Stage_uploading (Num 0) ''Starting document processing...'' @ evs
                  @ updateProgress cb Stage_embedding (Num 70) ''Generating embeddings...''
                  @ ps_events pst)
           @ (if cb
              then [\<lparr> stage = Stage_error, progress = Num 0,
                      progress_message = ''Failed to process document: '' @ failure_text e \<rparr>]
              else [])"
        by (simp only: up)
      with mem r(1,2) show ?thesis by blast
    qed
  }
  {
    fix schedule :: "nat list"
    assume long: "length chunks \<le> length schedule"
    show "processDocument cb ids now extractText generateEmbedding schedule st file \<noteq> None"
    proof (cases "embedding_stage generateEmbedding cb schedule chunks")
      case (Finished pst)
      with never show ?thesis by blast
    next
      case (Pending pst)
      with embedding_stage_not_pending[OF long] show ?thesis by blast
    next
      case (Rejected e pst)
      then show ?thesis by (simp add: pd ingestion_failed_def)
    qed
  }
qed

text \<open>The example file has the chunks \<open>ab\<close> and \<open>cd\<close>, and the embedder fails on \<open>cd\<close>.\<close>

lemma example_processed:
  "documentProcessor_processDocument True example_ids 0 example_extractor example_file =
     ([\<lparr> stage = Stage_uploading, progress = Num 0,
          progress_message = ''Starting document processing...'' \<rparr>,
       \<lparr> stage = Stage_extracting, progress = Num 10,
          progress_message = ''Processing TXT file...'' \<rparr>,
       \<lparr> stage = Stage_chunking, progress = Num 60,
          progress_message = ''Breaking document into chunks...'' \<rparr>,
       \<lparr> stage = Stage_complete, progress = Num 100,
          progress_message = ''Document processing complete!'' \<rparr>],
      Inr \<lparr> doc_id = ''ciii'', doc_name = ''notes.txt'', doc_content = two_paragraphs,
            doc_type = Txt, doc_size = 6, uploadedAt = 0, processedAt = Some 0,
            doc_chunks = Some
              [\<lparr> chunk_id = ''ci'', documentId = ''c'', content = ''ab'', startIndex = 0,
                  endIndex = 2, page = None, embedding = None \<rparr>,
               \<lparr> chunk_id = ''cii'', documentId = ''c'', content = ''cd'', startIndex = 2,
                  endIndex = 4, page = None, embedding = None \<rparr>] \<rparr>)"
  by code_simp

theorem embedding_failure_aborts_ingestion_witness:
  "(\<exists>evs document chunks c.
      documentProcessor_processDocument True example_ids 0 example_extractor example_file
        = (evs, Inr document) \<and>
      doc_chunks document = Some chunks \<and> length chunks = 2 \<and> c \<in> set chunks \<and>
      failing_embedder (content c) = Inl (Error ''out of memory'')) \<and>
   (\<exists>events. processDocument True example_ids 0 example_extractor failing_embedder [0, 0]
                empty_storage example_file
        = Some (events @ [\<lparr> stage = Stage_error, progress = Num 0,
                             progress_message = ''Failed to process document: out of memory'' \<rparr>],
                empty_storage, Inl (Error ''out of memory'')))"
proof -
  let ?chunks = "[\<lparr> chunk_id = ''ci'', documentId = ''c'', content = ''ab'', startIndex = 0,
                  endIndex = 2, page = None, embedding = None \<rparr>,
               \<lparr> chunk_id = ''cii'', documentId = ''c'', content = ''cd'', startIndex = 2,
                  endIndex = 4, page = None, embedding = None \<rparr>]"
  let ?c = "\<lparr> chunk_id = ''cii'', documentId = ''c'', content = ''cd'', startIndex = 2,
                  endIndex = 4, page = None, embedding = None \<rparr>"
  let ?doc = "\<lparr> doc_id = ''ciii'', doc_name = ''notes.txt'', doc_content = two_paragraphs,
            doc_type = Txt, doc_size = 6, uploadedAt = 0, processedAt = Some 0,
            doc_chunks = Some ?chunks \<rparr>"
  have dc: "doc_chunks ?doc = Some ?chunks" by simp
  have c: "?c \<in> set ?chunks" by simp
  have f: "failing_embedder (content ?c) = Inl (Error ''out of memory'')"
    by (simp add: failing_embedder_def)
  note t = embedding_failure_aborts_ingestion[where generateEmbedding = failing_embedder
      and st = empty_storage, OF example_processed dc c f]
  from t have "processDocument True example_ids 0 example_extractor failing_embedder [0, 0]
                empty_storage example_file \<noteq> None"
    by simp
  then obtain events st' result where run:
    "processDocument True example_ids 0 example_extractor failing_embedder [0, 0]
                empty_storage example_file = Some (events, st', result)"
    by (cases "processDocument True example_ids 0 example_extractor failing_embedder [0, 0]
                empty_storage example_file") auto
  with t obtain e before where e: "result = Inl e" "st' = empty_storage"
      "\<exists>c' \<in> set ?chunks. failing_embedder (content c') = Inl e"
      "events = before @
         (if True
          then [\<lparr> stage = Stage_error, progress = Num 0,
                  progress_message = ''Failed to process document: '' @ failure_text e \<rparr>]
          else [])"
    by blast
  from e(3) have "e = Error ''out of memory''"
    by (auto simp: failing_embedder_def)
  with run e have "processDocument True example_ids 0 example_extractor failing_embedder [0, 0]
                empty_storage example_file
        = Some (before @ [\<lparr> stage = Stage_error, progress = Num 0,
                             progress_message = ''Failed to process document: out of memory'' \<rparr>],
                empty_storage, Inl (Error ''out of memory''))"
    by (simp add: failure_text_def)
  then have failed: "\<exists>events. processDocument True example_ids 0 example_extractor
                failing_embedder [0, 0] empty_storage example_file
        = Some (events @ [\<lparr> stage = Stage_error, progress = Num 0,
                             progress_message = ''Failed to process document: out of memory'' \<rparr>],
                empty_storage, Inl (Error ''out of memory''))"
    by blast
  have "documentProcessor_processDocument True example_ids 0 example_extractor example_file
          = (fst (documentProcessor_processDocument True example_ids 0 example_extractor
                    example_file), Inr ?doc) \<and>
        doc_chunks ?doc = Some ?chunks \<and> length ?chunks = 2 \<and> ?c \<in> set ?chunks \<and>
        failing_embedder (content ?c) = Inl (Error ''out of memory'')"
    using f by (simp add: example_processed)
  then have processed: "\<exists>evs document chunks c.
      documentProcessor_processDocument True example_ids 0 example_extractor example_file
        = (evs, Inr document) \<and>
      doc_chunks document = Some chunks \<and> length chunks = 2 \<and> c \<in> set chunks \<and>
      failing_embedder (content c) = Inl (Error ''out of memory'')"
    by blast
  from processed failed show ?thesis by (rule conjI)
qed

section \<open>A failing answer (claim C9)\<close>






end
